theory Spec2Isabelle
  imports Complex_Main "HOL-Library.Sublist" "HOL-Library.Product_Lexorder"
begin

section \<open>Text: Python strings as lists of code points\<close>

text \<open>
  A Python \<open>str\<close> is a sequence of Unicode code points; the model keeps each code point as a
  natural number, so that \<open>len\<close>, \<open>in\<close>, \<open>replace\<close> and the regular expressions count what
  Python counts. Literals of the source are written with \<open>ascii\<close> and, for the four German
  letters and the euro sign, with their code points:
  U+00FC (252), U+00F6 (246), U+00E4 (228), U+00DF (223), U+20AC (8364).
\<close>

type_synonym ustring = "nat list"

definition ascii :: "string \<Rightarrow> ustring" where
  "ascii s = map of_char s"

text \<open>
  \<open>str.lower\<close>. The table of the model covers Basic Latin, the Latin-1 Supplement and the
  capital sharp s (U+1E9E); every other code point is left as it is.
\<close>

definition lower_cp :: "nat \<Rightarrow> nat" where
  "lower_cp c =
     (if 65 \<le> c \<and> c \<le> 90 then c + 32
      else if 192 \<le> c \<and> c \<le> 222 \<and> c \<noteq> 215 then c + 32
      else if c = 7838 then 223
      else c)"

definition lower :: "ustring \<Rightarrow> ustring" where
  "lower s = map lower_cp s"

text \<open>\<open>s.replace(old, new)\<close> for an \<open>old\<close> of one code point: every occurrence is rewritten.\<close>

definition replace :: "nat \<Rightarrow> ustring \<Rightarrow> ustring \<Rightarrow> ustring" where
  "replace old new s = concat (map (\<lambda>c. if c = old then new else [c]) s)"

definition normalize :: "ustring \<Rightarrow> ustring" where
  "normalize s =
     replace 223 (ascii ''ss'')
       (replace 228 (ascii ''ae'')
         (replace 246 (ascii ''oe'')
           (replace 252 (ascii ''ue'') (lower s))))"

text \<open>\<open>sub in s\<close>: \<open>sub\<close> occurs in \<open>s\<close> as a contiguous run.\<close>

fun contains :: "ustring \<Rightarrow> ustring \<Rightarrow> bool" where
  "contains sub [] = (sub = [])"
| "contains sub (c # cs) = (prefix sub (c # cs) \<or> contains sub cs)"

section \<open>Amounts\<close>

text \<open>
  \<open>AMOUNT_RE = (\d+(?:\.\d{3})*,\d{2})\<close>. The digit class of the model is the ASCII digits
  (\<open>\d\<close> of Python also accepts the other decimal digits of Unicode).
  Code points: \<open>.\<close> is 46 and \<open>,\<close> is 44.
\<close>

definition is_digit :: "nat \<Rightarrow> bool" where
  "is_digit c \<longleftrightarrow> 48 \<le> c \<and> c \<le> 57"

text \<open>The greedy star \<open>(?:\.\d{3})*\<close>: consume groups while one is there, return the rest.\<close>

fun skip_groups :: "ustring \<Rightarrow> ustring" where
  "skip_groups (c # d1 # d2 # d3 # r) =
     (if c = 46 \<and> is_digit d1 \<and> is_digit d2 \<and> is_digit d3 then skip_groups r
      else c # d1 # d2 # d3 # r)"
| "skip_groups s = s"

text \<open>
  The pattern anchored at the start of \<open>s\<close>: the greedy \<open>\d+\<close>, the greedy groups, then
  \<open>,\d{2}\<close>; the result is group 1, the matched text. Giving back digits or groups cannot
  produce a match (the next character is then a digit or a dot, never the comma), which
  \<open>amount_match_at_iff\<close> below establishes against the grammar.
\<close>

definition amount_match_at :: "ustring \<Rightarrow> ustring option" where
  "amount_match_at s =
     (if takeWhile is_digit s = [] then None
      else case skip_groups (dropWhile is_digit s) of
             c # a # b # r \<Rightarrow>
               if c = 44 \<and> is_digit a \<and> is_digit b
               then Some (take (length s - length r) s) else None
           | _ \<Rightarrow> None)"

text \<open>\<open>AMOUNT_RE.search(ln)\<close>: the match at the leftmost position that has one.\<close>

fun amount_search :: "ustring \<Rightarrow> ustring option" where
  "amount_search [] = None"
| "amount_search (c # cs) =
     (case amount_match_at (c # cs) of Some m \<Rightarrow> Some m | None \<Rightarrow> amount_search cs)"

text \<open>
  The amount grammar, stated on its own: one or more digits, any number of groups of a dot
  and three digits, a comma and two digits.
\<close>

definition is_group :: "ustring \<Rightarrow> bool" where
  "is_group g \<longleftrightarrow> (\<exists>x y z. g = [46, x, y, z] \<and> is_digit x \<and> is_digit y \<and> is_digit z)"

definition amount_grammar :: "ustring \<Rightarrow> bool" where
  "amount_grammar s \<longleftrightarrow>
     (\<exists>ds gs a b. s = ds @ concat gs @ [44, a, b] \<and> ds \<noteq> [] \<and> (\<forall>d \<in> set ds. is_digit d) \<and>
        (\<forall>g \<in> set gs. is_group g) \<and> is_digit a \<and> is_digit b)"

subsection \<open>Floating point\<close>

text \<open>
  A Python \<open>float\<close> that arises here is a non-negative binary64 number or \<open>inf\<close>; a finite
  one is kept as the rational it denotes.
\<close>

datatype pyfloat = Finite rat | PosInf

instantiation pyfloat :: linorder
begin

fun less_eq_pyfloat :: "pyfloat \<Rightarrow> pyfloat \<Rightarrow> bool" where
  "less_eq_pyfloat (Finite a) (Finite b) = (a \<le> b)"
| "less_eq_pyfloat _ PosInf = True"
| "less_eq_pyfloat PosInf (Finite b) = False"

definition less_pyfloat :: "pyfloat \<Rightarrow> pyfloat \<Rightarrow> bool" where
  "less_pyfloat x y \<longleftrightarrow> x \<le> y \<and> \<not> y \<le> x"

instance
proof
  fix x y z :: pyfloat
  show "(x < y) = (x \<le> y \<and> \<not> y \<le> x)" by (simp add: less_pyfloat_def)
  show "x \<le> x" by (cases x) simp_all
  show "x \<le> y \<Longrightarrow> y \<le> z \<Longrightarrow> x \<le> z" by (cases x; cases y; cases z) simp_all
  show "x \<le> y \<Longrightarrow> y \<le> x \<Longrightarrow> x = y" by (cases x; cases y) simp_all
  show "x \<le> y \<or> y \<le> x" by (cases x; cases y) auto
qed

end

text \<open>
  The exceptions that can leave the two functions. \<open>PermissionError\<close> is kept apart from
  the other errors of the operating system, which are \<open>OSError\<close> here; \<open>FileNotFoundError\<close>
  is the one \<open>pick_latest_pdf\<close> raises itself.
\<close>

datatype error = ValueError | FileNotFoundError | PermissionError | OSError

text \<open>\<open>int.bit_length\<close>, on a non-negative integer.\<close>

function bit_length :: "int \<Rightarrow> int" where
  "bit_length n = (if n \<le> 0 then 0 else 1 + bit_length (n div 2))"
  by pat_completeness auto
termination
  by (relation "measure nat") auto

declare bit_length.simps [simp del]

text \<open>The integer \<open>k\<close> with \<open>2^k \<le> a / b < 2^(k+1)\<close>, for positive \<open>a\<close> and \<open>b\<close>.\<close>

definition floor_log2 :: "int \<Rightarrow> int \<Rightarrow> int" where
  "floor_log2 a b =
     (let k = bit_length a - bit_length b
      in if 0 \<le> k then (if b * 2 ^ nat k \<le> a then k else k - 1)
         else (if b \<le> a * 2 ^ nat (- k) then k else k - 1))"

text \<open>\<open>n / d\<close> rounded to the nearest integer, a tie to the even one.\<close>

definition round_half_even :: "int \<Rightarrow> int \<Rightarrow> int" where
  "round_half_even n d =
     (let q = n div d; r = n mod d
      in if 2 * r < d then q else if d < 2 * r then q + 1 else if even q then q else q + 1)"

text \<open>
  The binary64 number nearest to \<open>a / b\<close> (\<open>a\<close> non-negative, \<open>b\<close> positive), a tie to the
  even significand: 53 significant bits, the exponent of the last bit not below \<open>-1074\<close>,
  and \<open>inf\<close> from \<open>2^1024\<close> on. This is what \<open>float\<close> makes of a decimal numeral.
\<close>

definition to_double :: "int \<Rightarrow> int \<Rightarrow> pyfloat" where
  "to_double a b =
     (if a = 0 then Finite 0
      else let e = max (floor_log2 a b - 52) (- 1074)
           in if 0 \<le> e
              then (let m = round_half_even a (b * 2 ^ nat e)
                    in if 2 ^ 1024 \<le> m * 2 ^ nat e then PosInf
                       else Finite (of_int (m * 2 ^ nat e)))
              else Finite (of_int (round_half_even (a * 2 ^ nat (- e)) b) / of_int (2 ^ nat (- e))))"

definition digits_value :: "ustring \<Rightarrow> int" where
  "digits_value ds = fold (\<lambda>d n. 10 * n + (int d - 48)) ds 0"

text \<open>
  \<open>float(s)\<close> on an unsigned decimal numeral: digits, optionally a point and more digits,
  at least one digit in all. Any other string is a \<open>ValueError\<close> in the model; the forms
  that Python reads beyond these (a sign, an exponent, surrounding blanks, underscores,
  \<open>inf\<close>, \<open>nan\<close>) are outside it.
\<close>

definition py_float :: "ustring \<Rightarrow> error + pyfloat" where
  "py_float s =
     (let ip = takeWhile is_digit s
      in case dropWhile is_digit s of
           [] \<Rightarrow> if ip = [] then Inl ValueError else Inr (to_double (digits_value ip) 1)
         | c # fp \<Rightarrow>
             if c = 46 \<and> list_all is_digit fp \<and> (ip \<noteq> [] \<or> fp \<noteq> [])
             then Inr (to_double (digits_value (ip @ fp)) (10 ^ length fp))
             else Inl ValueError)"

definition de_amount_to_float :: "ustring \<Rightarrow> error + pyfloat" where
  "de_amount_to_float s = py_float (replace 44 (ascii ''.'') (replace 46 [] s))"


section \<open>The payout locator\<close>

record payout =
  "file" :: ustring
  amount :: pyfloat
  raw_amount :: ustring
  matched_line :: ustring

text \<open>A candidate, as the source keeps it: (score, amount, raw amount, matched line).\<close>

type_synonym cand = "int \<times> pyfloat \<times> ustring \<times> ustring"

text \<open>
  \<open>str.isspace\<close> of one code point, which is what \<open>strip()\<close> removes at both ends, and the
  line boundaries of \<open>splitlines()\<close> (a carriage return followed by a line feed is one).
\<close>

definition is_space :: "nat \<Rightarrow> bool" where
  "is_space c \<longleftrightarrow>
     (9 \<le> c \<and> c \<le> 13) \<or> (28 \<le> c \<and> c \<le> 32) \<or> c = 133 \<or> c = 160 \<or> c = 5760 \<or>
     (8192 \<le> c \<and> c \<le> 8202) \<or> c = 8232 \<or> c = 8233 \<or> c = 8239 \<or> c = 8287 \<or> c = 12288"

definition strip :: "ustring \<Rightarrow> ustring" where
  "strip s = rev (dropWhile is_space (rev (dropWhile is_space s)))"

definition is_linebreak :: "nat \<Rightarrow> bool" where
  "is_linebreak c \<longleftrightarrow>
     (10 \<le> c \<and> c \<le> 13) \<or> (28 \<le> c \<and> c \<le> 30) \<or> c = 133 \<or> c = 8232 \<or> c = 8233"

fun splitlines_from :: "ustring \<Rightarrow> ustring \<Rightarrow> ustring list" where
  "splitlines_from cur [] = (if cur = [] then [] else [cur])"
| "splitlines_from cur [c] = (if is_linebreak c then [cur] else [cur @ [c]])"
| "splitlines_from cur (c # d # cs) =
     (if c = 13 \<and> d = 10 then cur # splitlines_from [] cs
      else if is_linebreak c then cur # splitlines_from [] (d # cs)
      else splitlines_from (cur @ [c]) (d # cs))"

definition splitlines :: "ustring \<Rightarrow> ustring list" where
  "splitlines s = splitlines_from [] s"

text \<open>
  \<open>lines = [ln.strip() for ln in text.splitlines() if ln.strip()]\<close>. The names \<open>norm\<close>
  and \<open>ln\<close> of the source are constants of the logic; they are \<open>norml\<close> and \<open>line\<close> below.
\<close>

definition text_lines :: "ustring \<Rightarrow> ustring list" where
  "text_lines text = map strip (filter (\<lambda>l. strip l \<noteq> []) (splitlines text))"

text \<open>
  \<open>add_candidate\<close> appends to the list of the enclosing function; the model passes the list
  through. The conversion may raise, so the result is a sum.
\<close>

definition add_candidate :: "int \<Rightarrow> ustring \<Rightarrow> cand list \<Rightarrow> error + cand list" where
  "add_candidate score line candidates =
     (case amount_search line of
        None \<Rightarrow> Inr candidates
      | Some raw \<Rightarrow>
          (case de_amount_to_float raw of
             Inl e \<Rightarrow> Inl e
           | Inr amt \<Rightarrow> Inr (candidates @ [(score, amt, raw, line)])))"

text \<open>A \<open>for\<close> loop whose body updates the state or raises.\<close>

fun for_each :: "('i \<Rightarrow> 's \<Rightarrow> error + 's) \<Rightarrow> 'i list \<Rightarrow> 's \<Rightarrow> error + 's" where
  "for_each body [] st = Inr st"
| "for_each body (x # xs) st =
     (case body x st of Inl e \<Rightarrow> Inl e | Inr st' \<Rightarrow> for_each body xs st')"

text \<open>
  The two tests the three tiers share:
  \<open>"ueberweisung" in n2 or "\<dots>berweisung" in ln2.lower()\<close> (the second literal starts
  with U+00FC) and \<open>"eur" in n2 or "\<dots>" in ln2\<close> (the euro sign, U+20AC).
\<close>

definition has_transfer :: "ustring \<Rightarrow> ustring \<Rightarrow> bool" where
  "has_transfer n2 ln2 \<longleftrightarrow>
     contains (ascii ''ueberweisung'') n2 \<or> contains (252 # ascii ''berweisung'') (lower ln2)"

definition has_currency :: "ustring \<Rightarrow> ustring \<Rightarrow> bool" where
  "has_currency n2 ln2 \<longleftrightarrow> contains (ascii ''eur'') n2 \<or> contains [8364] ln2"

text \<open>Tier 1, the body of the inner loop at index \<open>j\<close>.\<close>

definition tier1_body :: "ustring list \<Rightarrow> ustring list \<Rightarrow> nat \<Rightarrow> cand list \<Rightarrow> error + cand list" where
  "tier1_body lines norml j candidates =
     (let n2 = norml ! j; ln2 = lines ! j
      in if has_transfer n2 ln2
         then (let score = (if has_currency n2 ln2 then 100 + 20 else 100)
               in case add_candidate score ln2 candidates of
                    Inl e \<Rightarrow> Inl e
                  | Inr candidates' \<Rightarrow>
                      if j + 1 < length lines
                      then add_candidate (score - 5) (lines ! (j + 1)) candidates'
                      else Inr candidates')
         else Inr candidates)"

definition tier1 :: "ustring list \<Rightarrow> ustring list \<Rightarrow> cand list \<Rightarrow> error + cand list" where
  "tier1 lines norml candidates =
     for_each
       (\<lambda>i cs. if contains (ascii ''zahlungen'') (norml ! i)
                then for_each (tier1_body lines norml) [i ..< min (i + 20) (length lines)] cs
                else Inr cs)
       [0 ..< length norml] candidates"

definition payout_words :: "ustring list" where
  "payout_words =
     [ascii ''auszahlungsbetrag'', ascii ''netto'', ascii ''auszahlung'', ascii ''ausgezahlt'']"

definition tier2_body :: "ustring list \<Rightarrow> ustring list \<Rightarrow> nat \<Rightarrow> cand list \<Rightarrow> error + cand list" where
  "tier2_body lines norml i candidates =
     (let nln = norml ! i
      in if list_ex (\<lambda>w. contains w nln) payout_words
         then (let score = (if has_currency nln (lines ! i) then 80 + 10 else 80)
               in case add_candidate score (lines ! i) candidates of
                    Inl e \<Rightarrow> Inl e
                  | Inr candidates' \<Rightarrow>
                      if i + 1 < length lines
                      then add_candidate (score - 5) (lines ! (i + 1)) candidates'
                      else Inr candidates')
         else Inr candidates)"

definition tier2 :: "ustring list \<Rightarrow> ustring list \<Rightarrow> cand list \<Rightarrow> error + cand list" where
  "tier2 lines norml candidates = for_each (tier2_body lines norml) [0 ..< length norml] candidates"

definition tier3_body :: "ustring list \<Rightarrow> ustring list \<Rightarrow> nat \<Rightarrow> cand list \<Rightarrow> error + cand list" where
  "tier3_body lines norml i candidates =
     (let nln = norml ! i
      in if has_transfer nln (lines ! i)
         then (let score = (if has_currency nln (lines ! i) then 40 + 10 else 40)
               in add_candidate score (lines ! i) candidates)
         else Inr candidates)"

definition tier3 :: "ustring list \<Rightarrow> ustring list \<Rightarrow> cand list \<Rightarrow> error + cand list" where
  "tier3 lines norml candidates = for_each (tier3_body lines norml) [0 ..< length norml] candidates"

text \<open>The candidate list as it stands when the three tiers are done (line 101).\<close>

definition collect_candidates :: "ustring list \<Rightarrow> error + cand list" where
  "collect_candidates lines =
     (let norml = map normalize lines
      in case tier1 lines norml [] of
           Inl e \<Rightarrow> Inl e
         | Inr c1 \<Rightarrow>
             (case tier2 lines norml c1 of
                Inl e \<Rightarrow> Inl e
              | Inr c2 \<Rightarrow> tier3 lines norml c2))"

text \<open>
  \<open>candidates.sort(key=lambda x: (x[0], x[1]), reverse=True)\<close>: a stable sort, descending;
  with \<open>reverse=True\<close> elements of equal key keep their order.
\<close>

definition sort_key_fn :: "cand \<Rightarrow> int \<times> pyfloat" where
  "sort_key_fn x = (fst x, fst (snd x))"

definition sort_reverse :: "cand list \<Rightarrow> cand list" where
  "sort_reverse cs = rev (sort_key sort_key_fn (rev cs))"

definition find_payout_amount :: "ustring \<Rightarrow> error + payout option" where
  "find_payout_amount text =
     (case collect_candidates (text_lines text) of
        Inl e \<Rightarrow> Inl e
      | Inr candidates \<Rightarrow>
          if candidates = [] then Inr None
          else (case hd (sort_reverse candidates) of
                  (best_score, best_amt, best_raw, best_line) \<Rightarrow>
                    Inr (Some \<lparr>file = [], amount = best_amt, raw_amount = best_raw,
                                matched_line = best_line\<rparr>)))"


section \<open>The latest document\<close>

text \<open>
  What \<open>pick_latest_pdf\<close> sees of the file system, call by call. \<open>exists()\<close> and
  \<open>is_dir()\<close> ask the system about the path; they answer \<open>False\<close> when the system says
  the path is not there, and let every other error of the system through: a name that is
  too long (\<open>OSError\<close>), a parent directory that may not be searched
  (\<open>PermissionError\<close>). \<open>iterdir()\<close> lists a directory or raises \<open>PermissionError\<close> when
  the directory may not be read. \<open>is_file()\<close> of an entry answers, or raises
  \<open>PermissionError\<close> when the entry may not be examined, as in a directory that may be read
  but not searched. The source catches none of these.

  An entry that answers has its name (the final path component) and the answer of
  \<open>is_file()\<close>.
\<close>

record entry =
  name :: ustring
  is_file :: bool

datatype os_failure = Permission_Denied | Name_Too_Long

fun raised :: "os_failure \<Rightarrow> error" where
  "raised Permission_Denied = PermissionError"
| "raised Name_Too_Long = OSError"

text \<open>
  The shapes of the folder: a path the system refuses to examine; no such path; something
  that is not a directory; a directory that may not be read; a directory whose entries
  \<open>iterdir()\<close> yields in the given order and which all answer; and a directory that yields
  the given entries, which answer, and then an entry of the given name that does not
  (what follows that entry is never reached).
\<close>

datatype folder =
    Unreachable os_failure
  | Absent
  | Not_Directory
  | Unreadable_Directory
  | Directory "entry list"
  | Unsearchable_Directory "entry list" ustring

fun exists :: "folder \<Rightarrow> error + bool" where
  "exists (Unreachable f) = Inl (raised f)"
| "exists Absent = Inr False"
| "exists _ = Inr True"

fun is_dir :: "folder \<Rightarrow> error + bool" where
  "is_dir (Unreachable f) = Inl (raised f)"
| "is_dir Absent = Inr False"
| "is_dir Not_Directory = Inr False"
| "is_dir _ = Inr True"

text \<open>What the iteration yields: an entry that answers \<open>is_file()\<close>, or one that refuses.\<close>

datatype dir_item = Answering entry | Refusing ustring

fun iterdir :: "folder \<Rightarrow> error + dir_item list" where
  "iterdir (Directory es) = Inr (map Answering es)"
| "iterdir (Unsearchable_Directory es nm) = Inr (map Answering es @ [Refusing nm])"
| "iterdir Unreadable_Directory = Inl PermissionError"
| "iterdir (Unreachable f) = Inl (raised f)"
| "iterdir Absent = Inl FileNotFoundError"
| "iterdir Not_Directory = Inl OSError"

text \<open>
  \<open>Path.suffix\<close>: the name from its last dot on, when that dot is neither the first nor
  the last character; empty otherwise.
\<close>

definition rfind :: "nat \<Rightarrow> ustring \<Rightarrow> nat option" where
  "rfind c s =
     (case filter (\<lambda>i. s ! i = c) [0 ..< length s] of [] \<Rightarrow> None | i # is \<Rightarrow> Some (last (i # is)))"

definition suffix :: "ustring \<Rightarrow> ustring" where
  "suffix nm =
     (case rfind 46 nm of
        None \<Rightarrow> []
      | Some i \<Rightarrow> if 0 < i \<and> i < length nm - 1 then drop i nm else [])"

text \<open>\<open>YEAR_MONTH_RE = (20\d{2})(0[1-9]|1[0-2])\<close>, anchored, giving groups 1 and 2.\<close>

fun year_month_at :: "ustring \<Rightarrow> (ustring \<times> ustring) option" where
  "year_month_at (a # b # c # d # e # f # r) =
     (if a = 50 \<and> b = 48 \<and> is_digit c \<and> is_digit d \<and>
         ((e = 48 \<and> 49 \<le> f \<and> f \<le> 57) \<or> (e = 49 \<and> 48 \<le> f \<and> f \<le> 50))
      then Some ([a, b, c, d], [e, f]) else None)"
| "year_month_at s = None"

fun year_month_search :: "ustring \<Rightarrow> (ustring \<times> ustring) option" where
  "year_month_search [] = None"
| "year_month_search (c # cs) =
     (case year_month_at (c # cs) of Some g \<Rightarrow> Some g | None \<Rightarrow> year_month_search cs)"

text \<open>
  A \<open>datetime\<close> made by \<open>strptime(ym, "%Y%m")\<close> is the first of a month at midnight; the
  model keeps (year, month), which Python compares in this order.
  \<open>strptime\<close> is modelled on a string of six digits: a \<open>ValueError\<close> unless the year
  is at least 1 and the month is 1 to 12.
\<close>

type_synonym datetime = "int \<times> int"

definition strptime_Ym :: "ustring \<Rightarrow> error + datetime" where
  "strptime_Ym ym =
     (if length ym = 6 \<and> list_all is_digit ym \<and>
         1 \<le> digits_value (take 4 ym) \<and>
         1 \<le> digits_value (drop 4 ym) \<and> digits_value (drop 4 ym) \<le> 12
      then Inr (digits_value (take 4 ym), digits_value (drop 4 ym))
      else Inl ValueError)"

definition extract_yyyymm_from_name :: "ustring \<Rightarrow> datetime option" where
  "extract_yyyymm_from_name nm =
     (case year_month_search nm of
        None \<Rightarrow> None
      | Some (g1, g2) \<Rightarrow>
          (case strptime_Ym (g1 @ g2) of Inl e \<Rightarrow> None | Inr dt \<Rightarrow> Some dt))"

definition default_prefixes :: "ustring list" where
  "default_prefixes = [ascii ''entgeltnachweis_'', ascii ''entgeltabrechnung_'']"

text \<open>The loop body: the state is (\<open>best_dt\<close>, \<open>best_path\<close>).\<close>

definition pick_body ::
  "ustring list \<Rightarrow> entry \<Rightarrow> datetime option \<times> entry option \<Rightarrow> datetime option \<times> entry option" where
  "pick_body allowed_prefixes p best =
     (if \<not> is_file p \<or> lower (suffix (name p)) \<noteq> ascii ''.pdf'' then best
      else let n = lower (name p)
           in if allowed_prefixes \<noteq> [] \<and> \<not> list_ex (\<lambda>pref. prefix pref n) allowed_prefixes
              then best
              else (case extract_yyyymm_from_name (name p) of
                      None \<Rightarrow> best
                    | Some dt \<Rightarrow>
                        (case fst best of
                           None \<Rightarrow> (Some dt, Some p)
                         | Some best_dt \<Rightarrow> if dt > best_dt then (Some dt, Some p) else best)))"

text \<open>
  One turn of the loop: \<open>p.is_file()\<close> is the first call of the body, so an entry that
  refuses ends the function with the error.
\<close>

definition pick_item ::
  "ustring list \<Rightarrow> dir_item \<Rightarrow> datetime option \<times> entry option \<Rightarrow>
   error + datetime option \<times> entry option" where
  "pick_item allowed_prefixes it best =
     (case it of
        Refusing nm \<Rightarrow> Inl PermissionError
      | Answering p \<Rightarrow> Inr (pick_body allowed_prefixes p best))"

text \<open>
  \<open>if not folder.exists() or not folder.is_dir(): raise FileNotFoundError\<close>, then the loop
  over \<open>folder.iterdir()\<close>; \<open>is_dir()\<close> is asked only when \<open>exists()\<close> holds.
\<close>

definition pick_latest_pdf :: "folder \<Rightarrow> ustring list \<Rightarrow> error + entry option" where
  "pick_latest_pdf fld allowed_prefixes =
     (case exists fld of
        Inl e \<Rightarrow> Inl e
      | Inr ex \<Rightarrow>
          if \<not> ex then Inl FileNotFoundError
          else (case is_dir fld of
                  Inl e \<Rightarrow> Inl e
                | Inr d \<Rightarrow>
                    if \<not> d then Inl FileNotFoundError
                    else (case iterdir fld of
                            Inl e \<Rightarrow> Inl e
                          | Inr items \<Rightarrow>
                              (case for_each (pick_item allowed_prefixes) items (None, None) of
                                 Inl e \<Rightarrow> Inl e
                               | Inr best \<Rightarrow> Inr (snd best)))))"

section \<open>Notions for the statements\<close>

text \<open>The value \<open>float\<close> gives a string of the amount grammar: its digits, over 100.\<close>

definition amount_value :: "ustring \<Rightarrow> pyfloat" where
  "amount_value raw = to_double (digits_value (filter is_digit raw)) 100"

text \<open>
  What the tiers compute, written as comprehensions; the lemmas of the section on the
  candidate list prove the tiers equal to them. A call of \<open>add_candidate\<close> contributes
  nothing or one candidate:
\<close>

definition cand_of :: "int \<Rightarrow> ustring \<Rightarrow> cand list" where
  "cand_of score line =
     (case amount_search line of
        None \<Rightarrow> []
      | Some raw \<Rightarrow> [(score, amount_value raw, raw, line)])"

definition tier1_at :: "ustring list \<Rightarrow> ustring list \<Rightarrow> nat \<Rightarrow> cand list" where
  "tier1_at lines norml j =
     (if has_transfer (norml ! j) (lines ! j)
      then cand_of (if has_currency (norml ! j) (lines ! j) then 120 else 100) (lines ! j) @
           (if j + 1 < length lines
            then cand_of ((if has_currency (norml ! j) (lines ! j) then 120 else 100) - 5)
                   (lines ! (j + 1))
            else [])
      else [])"

definition tier1_added :: "ustring list \<Rightarrow> ustring list \<Rightarrow> cand list" where
  "tier1_added lines norml =
     concat (map (\<lambda>i. if contains (ascii ''zahlungen'') (norml ! i)
                       then concat (map (tier1_at lines norml) [i ..< min (i + 20) (length lines)])
                       else [])
               [0 ..< length norml])"

definition tier2_at :: "ustring list \<Rightarrow> ustring list \<Rightarrow> nat \<Rightarrow> cand list" where
  "tier2_at lines norml i =
     (if list_ex (\<lambda>w. contains w (norml ! i)) payout_words
      then cand_of (if has_currency (norml ! i) (lines ! i) then 90 else 80) (lines ! i) @
           (if i + 1 < length lines
            then cand_of ((if has_currency (norml ! i) (lines ! i) then 90 else 80) - 5)
                   (lines ! (i + 1))
            else [])
      else [])"

definition tier3_at :: "ustring list \<Rightarrow> ustring list \<Rightarrow> nat \<Rightarrow> cand list" where
  "tier3_at lines norml i =
     (if has_transfer (norml ! i) (lines ! i)
      then cand_of (if has_currency (norml ! i) (lines ! i) then 50 else 40) (lines ! i)
      else [])"

definition all_added :: "ustring list \<Rightarrow> cand list" where
  "all_added lines =
     tier1_added lines (map normalize lines) @
     concat (map (tier2_at lines (map normalize lines)) [0 ..< length lines]) @
     concat (map (tier3_at lines (map normalize lines)) [0 ..< length lines])"

text \<open>
  The lines on which the locator looks for an amount, in the words of the specification.
  Line \<open>k\<close> is in a payments block when some line \<open>i\<close> with \<open>i \<le> k < i + 20\<close> has
  \<open>zahlungen\<close> in its normalised form.
\<close>

definition in_zahlungen_window :: "ustring list \<Rightarrow> nat \<Rightarrow> bool" where
  "in_zahlungen_window lines k \<longleftrightarrow>
     list_ex (\<lambda>i. contains (ascii ''zahlungen'') (normalize (lines ! i))) [k + 1 - 20 ..< k + 1]"

definition transfer_line :: "ustring list \<Rightarrow> nat \<Rightarrow> bool" where
  "transfer_line lines k \<longleftrightarrow> has_transfer (normalize (lines ! k)) (lines ! k)"

definition payout_word_line :: "ustring list \<Rightarrow> nat \<Rightarrow> bool" where
  "payout_word_line lines k \<longleftrightarrow> list_ex (\<lambda>w. contains w (normalize (lines ! k))) payout_words"

text \<open>A keyword line: one that a tier passes to \<open>add_candidate\<close> for its own keyword.\<close>

definition keyword_line :: "ustring list \<Rightarrow> nat \<Rightarrow> bool" where
  "keyword_line lines k \<longleftrightarrow> transfer_line lines k \<or> payout_word_line lines k"

text \<open>
  A fallback line: the line after a transfer line of a payments block (tier 1) or after a
  line with a payout word (tier 2).
\<close>

definition fallback_line :: "ustring list \<Rightarrow> nat \<Rightarrow> bool" where
  "fallback_line lines k \<longleftrightarrow>
     0 < k \<and> (transfer_line lines (k - 1) \<and> in_zahlungen_window lines (k - 1) \<or>
              payout_word_line lines (k - 1))"

text \<open>
  The filters of the selector, in the words of the specification: a regular file, the
  extension \<open>.pdf\<close> in any case, a lowercased name that starts with an allowed prefix (no
  prefix filter when none is given), and a year-month token in the name.
\<close>

definition passes_filters :: "ustring list \<Rightarrow> entry \<Rightarrow> bool" where
  "passes_filters allowed_prefixes p \<longleftrightarrow>
     is_file p \<and> lower (suffix (name p)) = ascii ''.pdf'' \<and>
     (allowed_prefixes = [] \<or> list_ex (\<lambda>pref. prefix pref (lower (name p))) allowed_prefixes) \<and>
     year_month_search (name p) \<noteq> None"

text \<open>
  The state of the scan after the entries \<open>S\<close>: nothing yet and no entry of \<open>S\<close> passes the
  filters, or the best entry so far with its date, which no passing entry of \<open>S\<close> exceeds.
\<close>

definition scan_inv ::
  "ustring list \<Rightarrow> entry set \<Rightarrow> datetime option \<times> entry option \<Rightarrow> bool" where
  "scan_inv ps S st \<longleftrightarrow>
     (st = (None, None) \<and> (\<forall>q \<in> S. \<not> passes_filters ps q)) \<or>
     (\<exists>p d. st = (Some d, Some p) \<and> p \<in> S \<and> passes_filters ps p \<and>
        extract_yyyymm_from_name (name p) = Some d \<and>
        (\<forall>q \<in> S. passes_filters ps q \<longrightarrow>
           (\<forall>dq. extract_yyyymm_from_name (name q) = Some dq \<longrightarrow> dq \<le> d)))"

text \<open>A code point that normalisation leaves alone: lowercasing fixes it and it is none of
  the four letters that are rewritten.\<close>

definition folded :: "nat \<Rightarrow> bool" where
  "folded c \<longleftrightarrow> lower_cp c = c \<and> c \<noteq> 252 \<and> c \<noteq> 246 \<and> c \<noteq> 228 \<and> c \<noteq> 223"

section \<open>Normalisation\<close>

lemma replace_absent: "old \<notin> set s \<Longrightarrow> replace old new s = s"
  by (induction s) (auto simp: replace_def)

lemma set_replace: "set (replace old new s) \<subseteq> (set s - {old}) \<union> set new"
  by (induction s) (auto simp: replace_def)

lemma lower_fixed: "\<forall>c \<in> set s. lower_cp c = c \<Longrightarrow> lower s = s"
  by (simp add: lower_def map_idI)

lemma lower_cp_idem: "lower_cp (lower_cp c) = lower_cp c"
  by (simp add: lower_cp_def)

lemma ascii_ue: "set (ascii ''ue'') = {117, 101}"
  and ascii_oe: "set (ascii ''oe'') = {111, 101}"
  and ascii_ae: "set (ascii ''ae'') = {97, 101}"
  and ascii_ss: "set (ascii ''ss'') = {115}"
  by (auto simp: ascii_def)

lemma normalize_folded:
  assumes "c \<in> set (normalize s)"
  shows "folded c"
proof -
  let ?s0 = "lower s"
  let ?s1 = "replace 252 (ascii ''ue'') ?s0"
  let ?s2 = "replace 246 (ascii ''oe'') ?s1"
  let ?s3 = "replace 228 (ascii ''ae'') ?s2"
  have l0: "\<forall>d \<in> set ?s0. lower_cp d = d"
    by (auto simp: lower_def lower_cp_idem)
  have s1: "set ?s1 \<subseteq> (set ?s0 - {252}) \<union> {117, 101}"
    using set_replace[of 252 "ascii ''ue''" ?s0] by (simp only: ascii_ue)
  have s2: "set ?s2 \<subseteq> (set ?s1 - {246}) \<union> {111, 101}"
    using set_replace[of 246 "ascii ''oe''" ?s1] by (simp only: ascii_oe)
  have s3: "set ?s3 \<subseteq> (set ?s2 - {228}) \<union> {97, 101}"
    using set_replace[of 228 "ascii ''ae''" ?s2] by (simp only: ascii_ae)
  have s4: "set (normalize s) \<subseteq> (set ?s3 - {223}) \<union> {115}"
    using set_replace[of 223 "ascii ''ss''" ?s3] by (simp only: ascii_ss normalize_def)
  have c4: "c \<in> set ?s3 \<and> c \<noteq> 223 \<or> c = 115" using assms s4 by auto
  have small: "folded 115" "folded 97" "folded 101" "folded 111" "folded 117"
    by (simp_all add: folded_def lower_cp_def)
  show ?thesis
  proof (cases "c \<in> {115, 97, 101, 111, 117}")
    case True
    then show ?thesis using small by auto
  next
    case False
    then have "c \<in> set ?s0" "c \<noteq> 223" "c \<noteq> 228" "c \<noteq> 246" "c \<noteq> 252"
      using c4 s3 s2 s1 by auto
    then show ?thesis using l0 by (simp add: folded_def)
  qed
qed

lemma normalize_of_folded:
  assumes "\<forall>c \<in> set s. folded c"
  shows "normalize s = s"
proof -
  have "lower s = s" using assms by (simp add: lower_fixed folded_def)
  moreover have "252 \<notin> set s" "246 \<notin> set s" "228 \<notin> set s" "223 \<notin> set s"
    using assms by (auto simp: folded_def)
  ultimately show ?thesis by (simp add: normalize_def replace_absent)
qed

text \<open>
  C7. The normaliser is idempotent: normalising a string that is already normalised gives
  it back unchanged, for every string.
\<close>

theorem normalize_idempotent: "normalize (normalize s) = normalize s"
  by (rule normalize_of_folded) (blast intro: normalize_folded)

theorem normalize_idempotent_witness:
  "normalize (normalize (220 # ascii ''BER Stra'' @ [223, 69])) = ascii ''ueber strasse''"
proof -
  have e: "normalize (220 # ascii ''BER Stra'' @ [223, 69]) = ascii ''ueber strasse''"
    by code_simp
  have "normalize (normalize (220 # ascii ''BER Stra'' @ [223, 69])) =
        normalize (220 # ascii ''BER Stra'' @ [223, 69])"
    by (rule normalize_idempotent)
  then show ?thesis by (simp only: e)
qed

section \<open>The amount grammar and the matcher\<close>


lemma skip_groups_decomp:
  "\<exists>gs. s = concat gs @ skip_groups s \<and> (\<forall>g \<in> set gs. is_group g)"
proof (induction s rule: skip_groups.induct)
  case (1 c d1 d2 d3 r)
  show ?case
  proof (cases "c = 46 \<and> is_digit d1 \<and> is_digit d2 \<and> is_digit d3")
    case True
    then obtain gs where gs: "r = concat gs @ skip_groups r" "\<forall>g \<in> set gs. is_group g"
      using 1 by blast
    have g: "is_group [c, d1, d2, d3]" using True by (simp add: is_group_def)
    have "c # d1 # d2 # d3 # r = concat ([c, d1, d2, d3] # gs) @ skip_groups (c # d1 # d2 # d3 # r)"
      using True gs(1) by simp
    moreover have "\<forall>x \<in> set ([c, d1, d2, d3] # gs). is_group x" using g gs(2) by simp
    ultimately show ?thesis by blast
  next
    case False
    then have "c # d1 # d2 # d3 # r = concat [] @ skip_groups (c # d1 # d2 # d3 # r)" by auto
    then show ?thesis by (metis empty_iff list.set(1))
  qed
qed (auto intro: exI[of _ "[]"])

lemma skip_groups_concat:
  assumes "\<forall>g \<in> set gs. is_group g"
  shows "skip_groups (concat gs @ 44 # r) = 44 # r"
  using assms
proof (induction gs)
  case Nil
  show ?case by (cases r rule: skip_groups.cases) auto
next
  case (Cons g gs)
  then obtain x y z where "g = [46, x, y, z]" "is_digit x" "is_digit y" "is_digit z"
    by (auto simp: is_group_def)
  then show ?case using Cons by simp
qed

lemma not_digit_sep: "\<not> is_digit 44" "\<not> is_digit 46"
  by (simp_all add: is_digit_def)

lemma groups_tail_hd:
  assumes "\<forall>g \<in> set gs. is_group g"
  shows "\<exists>c r. concat gs @ 44 # t = c # r \<and> \<not> is_digit c"
proof (cases gs)
  case Nil
  then show ?thesis by (simp add: not_digit_sep)
next
  case (Cons g gs')
  then obtain x y z where "g = [46, x, y, z]" using assms by (auto simp: is_group_def)
  then show ?thesis using Cons by (simp add: not_digit_sep)
qed

lemma take_all_but: "s = p @ r \<Longrightarrow> take (length s - length r) s = p"
  by simp

lemma amount_match_at_grammar:
  assumes "amount_match_at s = Some m"
  shows "prefix m s \<and> amount_grammar m"
proof -
  let ?ds = "takeWhile is_digit s"
  let ?r1 = "dropWhile is_digit s"
  from assms have ds: "?ds \<noteq> []" by (auto simp: amount_match_at_def split: if_splits)
  from assms obtain a b r where sk: "skip_groups ?r1 = 44 # a # b # r" "is_digit a" "is_digit b"
    and m: "m = take (length s - length r) s"
    by (auto simp: amount_match_at_def split: if_splits list.splits)
  obtain gs where gs: "?r1 = concat gs @ skip_groups ?r1" "\<forall>g \<in> set gs. is_group g"
    using skip_groups_decomp by blast
  have s: "s = (?ds @ concat gs @ [44, a, b]) @ r"
    using gs(1) sk(1) takeWhile_dropWhile_id[of is_digit s] by (metis append.assoc append_Cons append_Nil)
  have meq: "m = ?ds @ concat gs @ [44, a, b]"
    unfolding m by (rule take_all_but[OF s])
  have dd: "\<forall>d \<in> set ?ds. is_digit d" by (auto dest: set_takeWhileD)
  have "s = m @ r" unfolding meq by (rule s)
  then have p: "prefix m s" by (rule prefixI)
  have "amount_grammar m"
    unfolding amount_grammar_def
    by (intro exI[of _ ?ds] exI[of _ gs] exI[of _ a] exI[of _ b] conjI meq ds dd gs(2) sk(2) sk(3))
  with p show ?thesis by simp
qed

lemma amount_grammar_match_at:
  assumes "amount_grammar m"
  shows "amount_match_at (m @ t) = Some m"
proof -
  from assms obtain ds gs a b where m: "m = ds @ concat gs @ [44, a, b]" and ds: "ds \<noteq> []"
    and dd: "\<forall>d \<in> set ds. is_digit d" and gg: "\<forall>g \<in> set gs. is_group g"
    and ab: "is_digit a" "is_digit b"
    by (auto simp: amount_grammar_def)
  obtain c r where cr: "concat gs @ 44 # (a # b # t) = c # r" "\<not> is_digit c"
    using groups_tail_hd[OF gg] by blast
  have mt: "m @ t = ds @ c # r" using m cr by simp
  have tw: "takeWhile is_digit (m @ t) = ds" unfolding mt using dd cr(2)
    by (simp add: takeWhile_append2)
  have dw: "dropWhile is_digit (m @ t) = concat gs @ 44 # a # b # t" unfolding mt using dd cr
    by (simp add: dropWhile_append2)
  have "take (length (m @ t) - length t) (m @ t) = m" by simp
  then show ?thesis
    unfolding amount_match_at_def tw dw skip_groups_concat[OF gg] using ds ab by simp
qed

lemma amount_match_at_iff: "amount_match_at s = Some m \<longleftrightarrow> prefix m s \<and> amount_grammar m"
  using amount_match_at_grammar amount_grammar_match_at by (auto simp: prefix_def)

lemma contains_iff: "contains sub s \<longleftrightarrow> (\<exists>ps ss. s = ps @ sub @ ss)"
proof (induction s)
  case Nil
  then show ?case by auto
next
  case (Cons c cs)
  show ?case
  proof
    assume "contains sub (c # cs)"
    then consider "prefix sub (c # cs)" | "contains sub cs" by auto
    then show "\<exists>ps ss. c # cs = ps @ sub @ ss"
    proof cases
      case 1
      then show ?thesis by (metis append_Nil prefix_def)
    next
      case 2
      then obtain ps ss where "cs = ps @ sub @ ss" using Cons by blast
      then have "c # cs = (c # ps) @ sub @ ss" by simp
      then show ?thesis by blast
    qed
  next
    assume "\<exists>ps ss. c # cs = ps @ sub @ ss"
    then obtain ps ss where e: "c # cs = ps @ sub @ ss" by blast
    show "contains sub (c # cs)"
    proof (cases ps)
      case Nil
      then have "prefix sub (c # cs)" using e by (metis append_Nil prefix_def)
      then show ?thesis by simp
    next
      case (Cons p ps')
      then have "cs = ps' @ sub @ ss" using e by simp
      then show ?thesis using Cons.IH by auto
    qed
  qed
qed

lemma amount_search_Some:
  "amount_search s = Some m \<Longrightarrow> amount_grammar m \<and> contains m s"
proof (induction s)
  case Nil
  then show ?case by simp
next
  case (Cons c cs)
  show ?case
  proof (cases "amount_match_at (c # cs)")
    case None
    then show ?thesis using Cons by auto
  next
    case (Some m')
    then have "m' = m" using Cons.prems by simp
    then show ?thesis using Some amount_match_at_grammar by auto
  qed
qed

lemma amount_search_None:
  "amount_search s = None \<longleftrightarrow> \<not> (\<exists>ps m ss. s = ps @ m @ ss \<and> amount_grammar m)"
proof (induction s)
  case Nil
  then show ?case by (auto simp: amount_grammar_def)
next
  case (Cons c cs)
  show ?case
  proof
    assume n: "amount_search (c # cs) = None"
    then have a: "amount_match_at (c # cs) = None" and b: "amount_search cs = None"
      by (auto split: option.splits)
    show "\<not> (\<exists>ps m ss. c # cs = ps @ m @ ss \<and> amount_grammar m)"
    proof
      assume "\<exists>ps m ss. c # cs = ps @ m @ ss \<and> amount_grammar m"
      then obtain ps m ss where e: "c # cs = ps @ m @ ss" "amount_grammar m" by blast
      show False
      proof (cases ps)
        case Nil
        then show ?thesis using e a amount_grammar_match_at[of m ss] by simp
      next
        case (Cons p ps')
        then have "cs = ps' @ m @ ss" using e by simp
        then show ?thesis using b Cons.IH e(2) by blast
      qed
    qed
  next
    assume n: "\<not> (\<exists>ps m ss. c # cs = ps @ m @ ss \<and> amount_grammar m)"
    have a: "amount_match_at (c # cs) = None"
    proof (rule ccontr)
      assume "amount_match_at (c # cs) \<noteq> None"
      then obtain m where "amount_match_at (c # cs) = Some m" by auto
      then have "prefix m (c # cs)" "amount_grammar m" using amount_match_at_grammar by auto
      then show False using n by (metis append_Nil prefix_def)
    qed
    have "\<not> (\<exists>ps m ss. cs = ps @ m @ ss \<and> amount_grammar m)"
    proof
      assume "\<exists>ps m ss. cs = ps @ m @ ss \<and> amount_grammar m"
      then obtain ps m ss where "cs = ps @ m @ ss" "amount_grammar m" by blast
      then have "c # cs = (c # ps) @ m @ ss" by simp
      then show False using n \<open>amount_grammar m\<close> by blast
    qed
    then have "amount_search cs = None" using Cons.IH by simp
    then show "amount_search (c # cs) = None" using a by simp
  qed
qed

section \<open>Conversion of a matched amount\<close>

lemma ascii_dot: "ascii ''.'' = [46]"
  by (simp add: ascii_def)

lemma group_chars: "is_group g \<Longrightarrow> c \<in> set g \<Longrightarrow> is_digit c \<or> c = 46"
  by (auto simp: is_group_def)

lemma replace_amount_body:
  assumes "\<forall>c \<in> set xs. is_digit c \<or> c = 46" "is_digit a" "is_digit b"
  shows "replace 44 [46] (replace 46 [] (xs @ [44, a, b])) = filter is_digit xs @ [46, a, b]"
  using assms
proof (induction xs)
  case Nil
  then show ?case by (auto simp: replace_def is_digit_def)
next
  case (Cons x xs)
  then have ih: "replace 44 [46] (replace 46 [] (xs @ [44, a, b])) = filter is_digit xs @ [46, a, b]"
    by simp
  have x: "is_digit x \<or> x = 46" using Cons.prems by simp
  have step: "replace 44 [46] (replace 46 [] ((x # xs) @ [44, a, b])) =
     (if x = 46 then [] else [x]) @ replace 44 [46] (replace 46 [] (xs @ [44, a, b]))"
    using x by (auto simp: replace_def is_digit_def)
  have nd: "\<not> is_digit 46" by (simp add: is_digit_def)
  show ?case unfolding step ih using x nd by auto
qed

lemma takeWhile_stop: "\<forall>d \<in> set D. P d \<Longrightarrow> \<not> P c \<Longrightarrow> takeWhile P (D @ c # r) = D"
  by (induction D) auto

lemma dropWhile_stop: "\<forall>d \<in> set D. P d \<Longrightarrow> \<not> P c \<Longrightarrow> dropWhile P (D @ c # r) = c # r"
  by (induction D) auto

lemma de_amount_to_float_grammar:
  assumes "amount_grammar raw"
  shows "de_amount_to_float raw = Inr (amount_value raw)"
proof -
  from assms obtain ds gs a b where raw: "raw = ds @ concat gs @ [44, a, b]" and ds: "ds \<noteq> []"
    and dd: "\<forall>d \<in> set ds. is_digit d" and gg: "\<forall>g \<in> set gs. is_group g"
    and ab: "is_digit a" "is_digit b"
    by (auto simp: amount_grammar_def)
  let ?xs = "ds @ concat gs"
  let ?D = "filter is_digit ?xs"
  have xs: "\<forall>c \<in> set ?xs. is_digit c \<or> c = 46"
    using dd gg group_chars by auto
  have raw': "raw = ?xs @ [44, a, b]" using raw by simp
  have X: "replace 44 (ascii ''.'') (replace 46 [] raw) = ?D @ [46, a, b]"
    unfolding ascii_dot raw' by (rule replace_amount_body[OF xs ab])
  have Dne: "?D \<noteq> []" using ds dd by (cases ds) auto
  have Dd: "\<forall>d \<in> set ?D. is_digit d" by auto
  have nd: "\<not> is_digit 46" by (simp add: is_digit_def)
  have tw: "takeWhile is_digit (?D @ [46, a, b]) = ?D"
    by (rule takeWhile_stop[OF Dd nd])
  have dw: "dropWhile is_digit (?D @ [46, a, b]) = [46, a, b]"
    by (rule dropWhile_stop[OF Dd nd])
  have fr: "filter is_digit raw = ?D @ [a, b]"
    unfolding raw' using ab by (simp add: is_digit_def)
  show ?thesis
    unfolding de_amount_to_float_def X py_float_def tw dw amount_value_def fr
    using ab by simp
qed






text \<open>
  The rounding on some vectors, as Python gives them: \<open>0.1\<close>, and a tie at \<open>2^53 + 1\<close> and
  at \<open>2^53 + 3\<close>, which goes to the even significand.
\<close>

lemma to_double_vectors:
  "to_double 1 10 = Finite (3602879701896397 / 2 ^ 55)"
  "to_double 9007199254740993 1 = Finite 9007199254740992"
  "to_double 9007199254740995 1 = Finite 9007199254740996"
  by code_simp+

section \<open>Amounts on the specification's vectors\<close>

text \<open>
  C4. The conversion strips the dots and turns the comma into a point before \<open>float\<close> reads
  the string, so \<open>1.024,09\<close> is read as the literal \<open>1024.09\<close> (the binary64 number
  \<open>4503995451556495 / 2^42\<close>), \<open>12,50\<close> as \<open>12.5\<close> and \<open>0,00\<close> as \<open>0.0\<close>; and the
  search finds no amount in \<open>1024\<close> (no decimal part) nor in \<open>1024,9\<close> (one digit after
  the comma).
\<close>

theorem amount_vectors:
  "replace 44 (ascii ''.'') (replace 46 [] (ascii ''1.024,09'')) = ascii ''1024.09'' \<and>
   de_amount_to_float (ascii ''1.024,09'') = py_float (ascii ''1024.09'') \<and>
   de_amount_to_float (ascii ''1.024,09'') = Inr (Finite (4503995451556495 / 2 ^ 42)) \<and>
   de_amount_to_float (ascii ''12,50'') = py_float (ascii ''12.50'') \<and>
   de_amount_to_float (ascii ''12,50'') = Inr (Finite (25 / 2)) \<and>
   de_amount_to_float (ascii ''0,00'') = py_float (ascii ''0.0'') \<and>
   de_amount_to_float (ascii ''0,00'') = Inr (Finite 0) \<and>
   amount_search (ascii ''1024'') = None \<and>
   amount_search (ascii ''1024,9'') = None"
  by code_simp

theorem amount_vectors_witness:
  "de_amount_to_float (ascii ''12,50'') = Inr (Finite (25 / 2))"
  using amount_vectors by (elim conjE)

text \<open>
  C5, as stated, fails: on the line \<open>12.3,45\<close> the search does find a token, the substring
  \<open>3,45\<close> that starts after the dot.
\<close>

theorem strict_grouping_counterexample:
  "amount_search (ascii ''12.3,45'') \<noteq> None \<and>
   amount_search (ascii ''12.3,45'') = Some (ascii ''3,45'')"
  by code_simp

text \<open>
  C5, amended. On the line \<open>12.3,45\<close> the pattern matches neither at the first digit nor
  at the second nor at the dot, so no token contains the malformed group; the search is
  not anchored and yields the token \<open>3,45\<close> at index 3, which the locator would take as
  the amount 3.45 of that line.
\<close>

theorem strict_grouping_partial_match:
  "amount_match_at (ascii ''12.3,45'') = None \<and>
   amount_match_at (ascii ''2.3,45'') = None \<and>
   amount_match_at (ascii ''.3,45'') = None \<and>
   amount_match_at (ascii ''3,45'') = Some (ascii ''3,45'') \<and>
   amount_search (ascii ''12.3,45'') = Some (ascii ''3,45'') \<and>
   add_candidate 40 (ascii ''12.3,45'') [] =
     Inr [(40, Finite (3884354678607053 / 2 ^ 50), ascii ''3,45'', ascii ''12.3,45'')]"
  by code_simp

theorem strict_grouping_partial_match_witness:
  "amount_search (ascii ''12.3,45'') = Some (ascii ''3,45'')"
  using strict_grouping_partial_match by (elim conjE)

section \<open>The candidate list\<close>

lemma add_candidate_eq: "add_candidate score line cs = Inr (cs @ cand_of score line)"
proof (cases "amount_search line")
  case None
  then show ?thesis by (simp add: add_candidate_def cand_of_def)
next
  case (Some raw)
  then have "amount_grammar raw" using amount_search_Some by blast
  then have "de_amount_to_float raw = Inr (amount_value raw)"
    by (rule de_amount_to_float_grammar)
  then show ?thesis using Some by (simp add: add_candidate_def cand_of_def)
qed

lemma for_each_appends:
  assumes "\<And>x st. x \<in> set xs \<Longrightarrow> body x st = Inr (st @ f x)"
  shows "for_each body xs st = Inr (st @ concat (map f xs))"
  using assms
proof (induction xs arbitrary: st)
  case Nil
  then show ?case by simp
next
  case (Cons x xs)
  have "body x st = Inr (st @ f x)" using Cons.prems by simp
  moreover have "for_each body xs (st @ f x) = Inr ((st @ f x) @ concat (map f xs))"
    using Cons by simp
  ultimately show ?case by simp
qed

lemma tier1_body_eq: "tier1_body lines norml j cs = Inr (cs @ tier1_at lines norml j)"
  by (simp add: tier1_body_def tier1_at_def add_candidate_eq Let_def)

lemma tier2_body_eq: "tier2_body lines norml i cs = Inr (cs @ tier2_at lines norml i)"
  by (simp add: tier2_body_def tier2_at_def add_candidate_eq Let_def)

lemma tier3_body_eq: "tier3_body lines norml i cs = Inr (cs @ tier3_at lines norml i)"
  by (simp add: tier3_body_def tier3_at_def add_candidate_eq Let_def)

lemma tier1_eq: "tier1 lines norml cs = Inr (cs @ tier1_added lines norml)"
proof -
  have inner: "\<And>i st. for_each (tier1_body lines norml) [i ..< min (i + 20) (length lines)] st =
      Inr (st @ concat (map (tier1_at lines norml) [i ..< min (i + 20) (length lines)]))"
    by (rule for_each_appends) (rule tier1_body_eq)
  show ?thesis
    unfolding tier1_def tier1_added_def
    by (rule for_each_appends) (simp add: inner)
qed

lemma tier2_eq:
  "tier2 lines norml cs = Inr (cs @ concat (map (tier2_at lines norml) [0 ..< length norml]))"
  unfolding tier2_def by (rule for_each_appends) (rule tier2_body_eq)

lemma tier3_eq:
  "tier3 lines norml cs = Inr (cs @ concat (map (tier3_at lines norml) [0 ..< length norml]))"
  unfolding tier3_def by (rule for_each_appends) (rule tier3_body_eq)

lemma collect_candidates_eq: "collect_candidates lines = Inr (all_added lines)"
  by (simp add: collect_candidates_def all_added_def tier1_eq tier2_eq tier3_eq Let_def)

lemma cand_of_mem:
  "c \<in> set (cand_of sc l) \<longleftrightarrow> (\<exists>raw. amount_search l = Some raw \<and> c = (sc, amount_value raw, raw, l))"
  by (auto simp: cand_of_def split: option.splits)

lemma in_zahlungen_window_iff:
  "in_zahlungen_window lines k \<longleftrightarrow>
     (\<exists>i. i \<le> k \<and> k < i + 20 \<and> contains (ascii ''zahlungen'') (normalize (lines ! i)))"
proof -
  have a: "\<And>i. i \<in> set [k + 1 - 20 ..< k + 1] \<longleftrightarrow> (i \<le> k \<and> k < i + 20)"
    by (simp only: set_upt atLeastLessThan_iff) arith
  show ?thesis
    unfolding in_zahlungen_window_def list_ex_iff Bex_def a by blast
qed

lemma concat_map_mem: "c \<in> set (concat (map f xs)) \<longleftrightarrow> (\<exists>x \<in> set xs. c \<in> set (f x))"
  by auto

lemma tier1_added_mem:
  "c \<in> set (tier1_added lines (map normalize lines)) \<longleftrightarrow>
     (\<exists>i j. i < length lines \<and> contains (ascii ''zahlungen'') (normalize (lines ! i)) \<and>
            i \<le> j \<and> j < i + 20 \<and> j < length lines \<and>
            c \<in> set (tier1_at lines (map normalize lines) j))"
  (is "?L \<longleftrightarrow> ?R")
proof
  assume ?L
  then obtain i where i0: "i \<in> set [0 ..< length (map normalize lines)]"
    and ci: "c \<in> set (if contains (ascii ''zahlungen'') (map normalize lines ! i)
                 then concat (map (tier1_at lines (map normalize lines))
                        [i ..< min (i + 20) (length lines)])
                 else [])"
    unfolding tier1_added_def concat_map_mem by blast
  have i: "i < length lines" using i0 by simp
  have z0: "contains (ascii ''zahlungen'') (map normalize lines ! i)"
    using ci by (rule_tac ccontr) simp
  then have z: "contains (ascii ''zahlungen'') (normalize (lines ! i))"
    using i by simp
  have "c \<in> set (concat (map (tier1_at lines (map normalize lines))
                        [i ..< min (i + 20) (length lines)]))"
    using ci z0 by simp
  then obtain j where j: "j \<in> set [i ..< min (i + 20) (length lines)]"
    and cj: "c \<in> set (tier1_at lines (map normalize lines) j)"
    unfolding concat_map_mem by blast
  have "i \<le> j" "j < i + 20" "j < length lines" using j by auto
  then show ?R using i z cj by blast
next
  assume ?R
  then obtain i j where i: "i < length lines"
    and z: "contains (ascii ''zahlungen'') (normalize (lines ! i))"
    and ij: "i \<le> j" "j < i + 20" "j < length lines"
    and cj: "c \<in> set (tier1_at lines (map normalize lines) j)" by blast
  have j: "j \<in> set [i ..< min (i + 20) (length lines)]" using ij by simp
  have "c \<in> set (concat (map (tier1_at lines (map normalize lines))
                        [i ..< min (i + 20) (length lines)]))"
    unfolding concat_map_mem using j cj by blast
  then have ci: "c \<in> set (if contains (ascii ''zahlungen'') (map normalize lines ! i)
                 then concat (map (tier1_at lines (map normalize lines))
                        [i ..< min (i + 20) (length lines)])
                 else [])"
    using z i by simp
  have "i \<in> set [0 ..< length (map normalize lines)]" using i by simp
  then show ?L unfolding tier1_added_def concat_map_mem using ci by blast
qed

lemma tier1_added_mem_window:
  "c \<in> set (tier1_added lines (map normalize lines)) \<longleftrightarrow>
     (\<exists>j. j < length lines \<and> in_zahlungen_window lines j \<and>
          c \<in> set (tier1_at lines (map normalize lines) j))"
  (is "?L \<longleftrightarrow> ?R")
proof
  assume ?L
  then show ?R unfolding tier1_added_mem in_zahlungen_window_iff by blast
next
  assume ?R
  then obtain j i where j: "j < length lines" "i \<le> j" "j < i + 20"
    "contains (ascii ''zahlungen'') (normalize (lines ! i))"
    "c \<in> set (tier1_at lines (map normalize lines) j)"
    unfolding in_zahlungen_window_iff by blast
  then have "i < length lines" by simp
  then show ?L unfolding tier1_added_mem using j by blast
qed

lemma tier1_at_same:
  assumes "has_transfer (norml ! j) (lines ! j)" "amount_search (lines ! j) = Some raw"
  shows "((if has_currency (norml ! j) (lines ! j) then 120 else 100), amount_value raw, raw, lines ! j)
           \<in> set (tier1_at lines norml j)"
  using assms by (simp add: tier1_at_def cand_of_mem)

lemma tier1_at_next:
  assumes "has_transfer (norml ! j) (lines ! j)" "j + 1 < length lines"
    "amount_search (lines ! (j + 1)) = Some raw"
  shows "((if has_currency (norml ! j) (lines ! j) then 120 else 100) - 5, amount_value raw, raw,
            lines ! (j + 1)) \<in> set (tier1_at lines norml j)"
  using assms by (simp add: tier1_at_def cand_of_mem)

lemma tier1_at_cases:
  assumes "c \<in> set (tier1_at lines norml j)"
  shows "has_transfer (norml ! j) (lines ! j) \<and>
         (c \<in> set (cand_of (if has_currency (norml ! j) (lines ! j) then 120 else 100) (lines ! j)) \<or>
          j + 1 < length lines \<and>
          c \<in> set (cand_of ((if has_currency (norml ! j) (lines ! j) then 120 else 100) - 5)
                      (lines ! (j + 1))))"
  using assms unfolding tier1_at_def by (auto split: if_splits)

lemma tier2_at_cases:
  assumes "c \<in> set (tier2_at lines norml i)"
  shows "list_ex (\<lambda>w. contains w (norml ! i)) payout_words \<and>
         (c \<in> set (cand_of (if has_currency (norml ! i) (lines ! i) then 90 else 80) (lines ! i)) \<or>
          i + 1 < length lines \<and>
          c \<in> set (cand_of ((if has_currency (norml ! i) (lines ! i) then 90 else 80) - 5)
                      (lines ! (i + 1))))"
  using assms unfolding tier2_at_def by (auto split: if_splits)

lemma tier3_at_cases:
  assumes "c \<in> set (tier3_at lines norml i)"
  shows "has_transfer (norml ! i) (lines ! i) \<and>
         c \<in> set (cand_of (if has_currency (norml ! i) (lines ! i) then 50 else 40) (lines ! i))"
  using assms unfolding tier3_at_def by (auto split: if_splits)

lemma all_added_mem:
  "c \<in> set (all_added lines) \<longleftrightarrow>
     (\<exists>j. j < length lines \<and> in_zahlungen_window lines j \<and>
          c \<in> set (tier1_at lines (map normalize lines) j)) \<or>
     (\<exists>i. i < length lines \<and> c \<in> set (tier2_at lines (map normalize lines) i)) \<or>
     (\<exists>i. i < length lines \<and> c \<in> set (tier3_at lines (map normalize lines) i))"
proof -
  have a: "\<And>f. c \<in> set (concat (map f [0 ..< length lines])) \<longleftrightarrow>
             (\<exists>i. i < length lines \<and> c \<in> set (f i))"
    unfolding concat_map_mem by auto
  show ?thesis
    unfolding all_added_def set_append Un_iff a tier1_added_mem_window by (rule refl)
qed

text \<open>Every candidate comes from a keyword line or a fallback line that carries an amount.\<close>

lemma all_added_sound:
  assumes "c \<in> set (all_added lines)"
  shows "\<exists>sc raw k. c = (sc, amount_value raw, raw, lines ! k) \<and> k < length lines \<and>
           amount_search (lines ! k) = Some raw \<and> (keyword_line lines k \<or> fallback_line lines k)"
proof -
  let ?n = "map normalize lines"
  consider
    (t1) j where "j < length lines" "in_zahlungen_window lines j" "c \<in> set (tier1_at lines ?n j)"
  | (t2) i where "i < length lines" "c \<in> set (tier2_at lines ?n i)"
  | (t3) i where "i < length lines" "c \<in> set (tier3_at lines ?n i)"
    using assms unfolding all_added_mem by blast
  then show ?thesis
  proof cases
    case t1
    from tier1_at_cases[OF t1(3)] t1(1)
    have h: "transfer_line lines j" by (simp add: transfer_line_def)
    from tier1_at_cases[OF t1(3)]
    consider (same) sc where "c \<in> set (cand_of sc (lines ! j))"
      | (nxt) sc where "j + 1 < length lines" "c \<in> set (cand_of sc (lines ! (j + 1)))"
      by blast
    then show ?thesis
    proof cases
      case same
      then obtain raw where "amount_search (lines ! j) = Some raw"
        "c = (sc, amount_value raw, raw, lines ! j)" unfolding cand_of_mem by blast
      moreover have "keyword_line lines j" using h by (simp add: keyword_line_def)
      ultimately show ?thesis using t1(1) by blast
    next
      case nxt
      then obtain raw where "amount_search (lines ! (j + 1)) = Some raw"
        "c = (sc, amount_value raw, raw, lines ! (j + 1))" unfolding cand_of_mem by blast
      moreover have "fallback_line lines (j + 1)"
        using h t1(2) by (simp add: fallback_line_def)
      ultimately show ?thesis using nxt(1) by blast
    qed
  next
    case t2
    from tier2_at_cases[OF t2(2)] t2(1)
    have h: "payout_word_line lines i" by (simp add: payout_word_line_def)
    from tier2_at_cases[OF t2(2)]
    consider (same) sc where "c \<in> set (cand_of sc (lines ! i))"
      | (nxt) sc where "i + 1 < length lines" "c \<in> set (cand_of sc (lines ! (i + 1)))"
      by blast
    then show ?thesis
    proof cases
      case same
      then obtain raw where "amount_search (lines ! i) = Some raw"
        "c = (sc, amount_value raw, raw, lines ! i)" unfolding cand_of_mem by blast
      moreover have "keyword_line lines i" using h by (simp add: keyword_line_def)
      ultimately show ?thesis using t2(1) by blast
    next
      case nxt
      then obtain raw where "amount_search (lines ! (i + 1)) = Some raw"
        "c = (sc, amount_value raw, raw, lines ! (i + 1))" unfolding cand_of_mem by blast
      moreover have "fallback_line lines (i + 1)"
        using h by (simp add: fallback_line_def)
      ultimately show ?thesis using nxt(1) by blast
    qed
  next
    case t3
    from tier3_at_cases[OF t3(2)] t3(1)
    have h: "transfer_line lines i" by (simp add: transfer_line_def)
    from tier3_at_cases[OF t3(2)] obtain raw where "amount_search (lines ! i) = Some raw"
      "c = ((if has_currency (?n ! i) (lines ! i) then 50 else 40), amount_value raw, raw, lines ! i)"
      unfolding cand_of_mem by blast
    moreover have "keyword_line lines i" using h by (simp add: keyword_line_def)
    ultimately show ?thesis using t3(1) by blast
  qed
qed

text \<open>Every keyword line and every fallback line that carries an amount gives a candidate.\<close>

lemma all_added_complete:
  assumes "k < length lines" "keyword_line lines k \<or> fallback_line lines k"
    "amount_search (lines ! k) = Some raw"
  shows "\<exists>sc. (sc, amount_value raw, raw, lines ! k) \<in> set (all_added lines)"
proof -
  let ?n = "map normalize lines"
  have nk: "?n ! k = normalize (lines ! k)" using assms(1) by simp
  consider (tr) "transfer_line lines k" | (pw) "payout_word_line lines k"
    | (f1) "0 < k" "transfer_line lines (k - 1)" "in_zahlungen_window lines (k - 1)"
    | (f2) "0 < k" "payout_word_line lines (k - 1)"
    using assms(2) unfolding keyword_line_def fallback_line_def by blast
  then show ?thesis
  proof cases
    case tr
    then have "has_transfer (?n ! k) (lines ! k)" using nk by (simp add: transfer_line_def)
    then have "((if has_currency (?n ! k) (lines ! k) then 50 else 40), amount_value raw, raw,
        lines ! k) \<in> set (tier3_at lines ?n k)"
      using assms(3) by (simp add: tier3_at_def cand_of_mem)
    then show ?thesis unfolding all_added_mem using assms(1) by blast
  next
    case pw
    then have "list_ex (\<lambda>w. contains w (?n ! k)) payout_words"
      using nk by (simp add: payout_word_line_def)
    then have "((if has_currency (?n ! k) (lines ! k) then 90 else 80), amount_value raw, raw,
        lines ! k) \<in> set (tier2_at lines ?n k)"
      using assms(3) by (simp add: tier2_at_def cand_of_mem)
    then show ?thesis unfolding all_added_mem using assms(1) by blast
  next
    case f1
    let ?j = "k - 1"
    have j: "?j < length lines" "?j + 1 = k" "?j + 1 < length lines" using f1(1) assms(1) by simp_all
    have "has_transfer (?n ! ?j) (lines ! ?j)" using f1(2) j(1) by (simp add: transfer_line_def)
    from tier1_at_next[OF this j(3)] assms(3) j(2)
    have "((if has_currency (?n ! ?j) (lines ! ?j) then 120 else 100) - 5, amount_value raw, raw,
        lines ! k) \<in> set (tier1_at lines ?n ?j)" by simp
    then show ?thesis unfolding all_added_mem using j(1) f1(3) by blast
  next
    case f2
    let ?j = "k - 1"
    have j: "?j < length lines" "?j + 1 = k" "?j + 1 < length lines" using f2(1) assms(1) by simp_all
    have "list_ex (\<lambda>w. contains w (?n ! ?j)) payout_words"
      using f2(2) j(1) by (simp add: payout_word_line_def)
    then have "((if has_currency (?n ! ?j) (lines ! ?j) then 90 else 80) - 5, amount_value raw, raw,
        lines ! k) \<in> set (tier2_at lines ?n ?j)"
      using assms(3) j by (simp add: tier2_at_def cand_of_mem)
    then show ?thesis unfolding all_added_mem using j(1) by blast
  qed
qed

section \<open>Sorting and lines\<close>

lemma sorted_last_max:
  assumes "sorted (map k ys)" "y \<in> set ys"
  shows "k y \<le> k (last ys)"
proof -
  have ne: "ys \<noteq> []" using assms(2) by auto
  then have split: "ys = butlast ys @ [last ys]" by simp
  show ?thesis
  proof (cases "y = last ys")
    case True
    then show ?thesis by simp
  next
    case False
    then have "y \<in> set (butlast ys)" using assms(2) split
      by (metis Un_iff empty_iff insert_iff list.set(1) list.set(2) set_append)
    moreover have "sorted (map k (butlast ys) @ [k (last ys)])"
      using assms(1) split by (metis list.simps(8) list.simps(9) map_append)
    ultimately show ?thesis by (auto simp: sorted_append)
  qed
qed

lemma hd_sort_reverse:
  assumes "cs \<noteq> []"
  shows "hd (sort_reverse cs) \<in> set cs \<and>
         (\<forall>c \<in> set cs. sort_key_fn c \<le> sort_key_fn (hd (sort_reverse cs)))"
proof -
  let ?ys = "sort_key sort_key_fn (rev cs)"
  have set: "set ?ys = set cs" by simp
  have ne: "?ys \<noteq> []" using assms set by (metis set_empty)
  have hd: "hd (sort_reverse cs) = last ?ys"
    unfolding sort_reverse_def using ne by (simp add: hd_rev)
  have srt: "sorted (map sort_key_fn ?ys)" by (rule sorted_sort_key)
  have "last ?ys \<in> set cs" using ne set last_in_set by blast
  moreover have "\<forall>c \<in> set cs. sort_key_fn c \<le> sort_key_fn (last ?ys)"
    using sorted_last_max[OF srt] set by blast
  ultimately show ?thesis unfolding hd by blast
qed

text \<open>Python's order on the keys, a pair of a score and an amount, is the lexicographic one.\<close>

lemma key_le_iff:
  "sort_key_fn (s', a', r', l') \<le> sort_key_fn (s, a, r, l) \<longleftrightarrow> s' < s \<or> (s' = s \<and> a' \<le> a)"
  by (auto simp: sort_key_fn_def)

lemma dropWhile_fixed: "xs = [] \<or> \<not> P (hd xs) \<Longrightarrow> dropWhile P xs = xs"
  by (cases xs) auto





section \<open>The winner\<close>

lemma find_payout_amount_none:
  assumes "all_added (text_lines text) = []"
  shows "find_payout_amount text = Inr None"
  using assms by (simp add: find_payout_amount_def collect_candidates_eq)

lemma find_payout_amount_some:
  assumes "all_added (text_lines text) \<noteq> []"
  shows "\<exists>s a r l. (s, a, r, l) \<in> set (all_added (text_lines text)) \<and>
           find_payout_amount text =
             Inr (Some \<lparr>file = [], amount = a, raw_amount = r, matched_line = l\<rparr>) \<and>
           (\<forall>c \<in> set (all_added (text_lines text)). sort_key_fn c \<le> sort_key_fn (s, a, r, l))"
proof -
  let ?cs = "all_added (text_lines text)"
  obtain s a r l where h: "hd (sort_reverse ?cs) = (s, a, r, l)"
    by (metis prod_cases4)
  have "find_payout_amount text =
      Inr (Some \<lparr>file = [], amount = a, raw_amount = r, matched_line = l\<rparr>)"
    using assms h by (simp add: find_payout_amount_def collect_candidates_eq)
  then show ?thesis using hd_sort_reverse[OF assms] unfolding h by blast
qed

text \<open>
  C1. For every text the locator returns \<open>None\<close> exactly when the candidate list is empty,
  which is exactly when no keyword line and no fallback line of the text has a substring
  of the amount grammar; otherwise it returns the payout of a candidate whose key is
  maximal in the lexicographic order on (score, amount), with an empty \<open>file\<close>. It never
  raises.
\<close>

theorem find_payout_amount_winner:
  "\<exists>cs. collect_candidates (text_lines text) = Inr cs \<and>
     (find_payout_amount text = Inr None \<longleftrightarrow> cs = []) \<and>
     (cs = [] \<longleftrightarrow>
        (\<forall>k < length (text_lines text).
           keyword_line (text_lines text) k \<or> fallback_line (text_lines text) k \<longrightarrow>
           \<not> (\<exists>ps m ss. text_lines text ! k = ps @ m @ ss \<and> amount_grammar m))) \<and>
     (cs \<noteq> [] \<longrightarrow>
        (\<exists>s a r l. (s, a, r, l) \<in> set cs \<and>
           find_payout_amount text =
             Inr (Some \<lparr>file = [], amount = a, raw_amount = r, matched_line = l\<rparr>) \<and>
           (\<forall>(s', a', r', l') \<in> set cs. s' < s \<or> (s' = s \<and> a' \<le> a))))"
proof -
  let ?L = "text_lines text"
  let ?cs = "all_added ?L"
  have c: "collect_candidates ?L = Inr ?cs" by (rule collect_candidates_eq)
  have n: "find_payout_amount text = Inr None \<longleftrightarrow> ?cs = []"
  proof
    assume a: "find_payout_amount text = Inr None"
    show "?cs = []"
    proof (rule ccontr)
      assume "?cs \<noteq> []"
      from find_payout_amount_some[OF this] a show False by auto
    qed
  next
    assume "?cs = []"
    then show "find_payout_amount text = Inr None" by (rule find_payout_amount_none)
  qed
  have e: "?cs = [] \<longleftrightarrow>
        (\<forall>k < length ?L. keyword_line ?L k \<or> fallback_line ?L k \<longrightarrow>
           \<not> (\<exists>ps m ss. ?L ! k = ps @ m @ ss \<and> amount_grammar m))"
  proof
    assume emp: "?cs = []"
    show "\<forall>k < length ?L. keyword_line ?L k \<or> fallback_line ?L k \<longrightarrow>
           \<not> (\<exists>ps m ss. ?L ! k = ps @ m @ ss \<and> amount_grammar m)"
    proof (intro allI impI)
      fix k assume k: "k < length ?L" "keyword_line ?L k \<or> fallback_line ?L k"
      have "amount_search (?L ! k) = None"
      proof (rule ccontr)
        assume "amount_search (?L ! k) \<noteq> None"
        then obtain raw where "amount_search (?L ! k) = Some raw" by auto
        from all_added_complete[OF k this] emp show False by simp
      qed
      then show "\<not> (\<exists>ps m ss. ?L ! k = ps @ m @ ss \<and> amount_grammar m)"
        using amount_search_None by blast
    qed
  next
    assume h: "\<forall>k < length ?L. keyword_line ?L k \<or> fallback_line ?L k \<longrightarrow>
           \<not> (\<exists>ps m ss. ?L ! k = ps @ m @ ss \<and> amount_grammar m)"
    show "?cs = []"
    proof (rule ccontr)
      assume "?cs \<noteq> []"
      then obtain c where "c \<in> set ?cs" by (meson last_in_set)
      from all_added_sound[OF this] obtain raw k where k: "k < length ?L"
        "amount_search (?L ! k) = Some raw" "keyword_line ?L k \<or> fallback_line ?L k" by blast
      then have "\<not> (\<exists>ps m ss. ?L ! k = ps @ m @ ss \<and> amount_grammar m)" using h by blast
      then have "amount_search (?L ! k) = None" using amount_search_None by blast
      then show False using k(2) by simp
    qed
  qed
  have w: "?cs \<noteq> [] \<longrightarrow>
        (\<exists>s a r l. (s, a, r, l) \<in> set ?cs \<and>
           find_payout_amount text =
             Inr (Some \<lparr>file = [], amount = a, raw_amount = r, matched_line = l\<rparr>) \<and>
           (\<forall>(s', a', r', l') \<in> set ?cs. s' < s \<or> (s' = s \<and> a' \<le> a)))"
  proof
    assume "?cs \<noteq> []"
    from find_payout_amount_some[OF this] obtain s a r l where
      m: "(s, a, r, l) \<in> set ?cs"
      and f: "find_payout_amount text =
             Inr (Some \<lparr>file = [], amount = a, raw_amount = r, matched_line = l\<rparr>)"
      and mx: "\<forall>c \<in> set ?cs. sort_key_fn c \<le> sort_key_fn (s, a, r, l)" by blast
    have "\<forall>(s', a', r', l') \<in> set ?cs. s' < s \<or> (s' = s \<and> a' \<le> a)"
      using mx key_le_iff by fastforce
    then show "\<exists>s a r l. (s, a, r, l) \<in> set ?cs \<and>
           find_payout_amount text =
             Inr (Some \<lparr>file = [], amount = a, raw_amount = r, matched_line = l\<rparr>) \<and>
           (\<forall>(s', a', r', l') \<in> set ?cs. s' < s \<or> (s' = s \<and> a' \<le> a))"
      using m f by blast
  qed
  show ?thesis using c n e w by blast
qed

lemmas ev_text = ascii_def is_space_def strip_def is_linebreak_def splitlines_def text_lines_def
  lower_def lower_cp_def replace_def normalize_def

lemmas ev_amount = is_digit_def amount_match_at_def amount_value_def digits_value_def
  to_double_def floor_log2_def round_half_even_def bit_length.simps cand_of_def

lemmas ev_tiers = all_added_def tier1_added_def tier1_at_def tier2_at_def tier3_at_def
  has_transfer_def has_currency_def payout_words_def

theorem find_payout_amount_winner_witness:
  "find_payout_amount (ascii ''Netto 1.234,56 EUR'' @ [10] @ 220 # ascii ''berweisung 50,00'') =
     Inr (Some \<lparr>file = [], amount = Finite (2714826150374277 / 2 ^ 41),
                 raw_amount = ascii ''1.234,56'', matched_line = ascii ''Netto 1.234,56 EUR''\<rparr>)"
proof -
  let ?T = "ascii ''Netto 1.234,56 EUR'' @ [10] @ 220 # ascii ''berweisung 50,00''"
  let ?c1 = "(90 :: int, Finite (2714826150374277 / 2 ^ 41), ascii ''1.234,56'',
              ascii ''Netto 1.234,56 EUR'')"
  let ?c2 = "(85 :: int, Finite 50, ascii ''50,00'', 220 # ascii ''berweisung 50,00'')"
  let ?c3 = "(40 :: int, Finite 50, ascii ''50,00'', 220 # ascii ''berweisung 50,00'')"
  have tl: "text_lines ?T = [ascii ''Netto 1.234,56 EUR'', 220 # ascii ''berweisung 50,00'']"
    by (simp add: ev_text)
  have "all_added [ascii ''Netto 1.234,56 EUR'', 220 # ascii ''berweisung 50,00''] =
      [?c1, ?c2, ?c3]"
    by (simp add: ev_text ev_amount ev_tiers)
  then have ev: "collect_candidates (text_lines ?T) = Inr [?c1, ?c2, ?c3]"
    by (simp only: tl collect_candidates_eq)
  from find_payout_amount_winner[of ?T] obtain cs where
    c: "collect_candidates (text_lines ?T) = Inr cs"
    and w: "cs \<noteq> [] \<longrightarrow>
        (\<exists>s a r l. (s, a, r, l) \<in> set cs \<and>
           find_payout_amount ?T =
             Inr (Some \<lparr>file = [], amount = a, raw_amount = r, matched_line = l\<rparr>) \<and>
           (\<forall>(s', a', r', l') \<in> set cs. s' < s \<or> (s' = s \<and> a' \<le> a)))"
    by blast
  have cs: "cs = [?c1, ?c2, ?c3]" using c ev by simp
  then have "cs \<noteq> []" by simp
  with w obtain s a r l where m: "(s, a, r, l) \<in> set cs"
    and f: "find_payout_amount ?T =
             Inr (Some \<lparr>file = [], amount = a, raw_amount = r, matched_line = l\<rparr>)"
    and mx: "\<forall>(s', a', r', l') \<in> set cs. s' < s \<or> (s' = s \<and> a' \<le> a)"
    by blast
  have "?c1 \<in> set cs" unfolding cs by simp
  with mx have "90 \<le> s" by fastforce
  moreover have "(s, a, r, l) = ?c1 \<or> (s, a, r, l) = ?c2 \<or> (s, a, r, l) = ?c3"
    using m unfolding cs by simp
  ultimately have "(s, a, r, l) = ?c1" by auto
  then show ?thesis using f by simp
qed

section \<open>Consistency of the payout\<close>






section \<open>Tier 1\<close>

lemma tier1_adds_same:
  assumes "i < length lines" "contains (ascii ''zahlungen'') (normalize (lines ! i))"
    "i \<le> j" "j < min (i + 20) (length lines)"
    "has_transfer (normalize (lines ! j)) (lines ! j)"
    "amount_search (lines ! j) = Some raw"
  shows "((if has_currency (normalize (lines ! j)) (lines ! j) then 120 else 100),
          amount_value raw, raw, lines ! j) \<in> set (tier1_added lines (map normalize lines))"
proof -
  have j: "j < length lines" "j < i + 20" using assms(4) by simp_all
  have nj: "map normalize lines ! j = normalize (lines ! j)" using j(1) by simp
  have "has_transfer (map normalize lines ! j) (lines ! j)" using assms(5) nj by simp
  from tier1_at_same[OF this assms(6)]
  have "((if has_currency (normalize (lines ! j)) (lines ! j) then 120 else 100),
          amount_value raw, raw, lines ! j) \<in> set (tier1_at lines (map normalize lines) j)"
    unfolding nj .
  then show ?thesis unfolding tier1_added_mem using assms(1,2,3) j by blast
qed

lemma tier1_adds_next:
  assumes "i < length lines" "contains (ascii ''zahlungen'') (normalize (lines ! i))"
    "i \<le> j" "j < min (i + 20) (length lines)"
    "has_transfer (normalize (lines ! j)) (lines ! j)"
    "j + 1 < length lines" "amount_search (lines ! (j + 1)) = Some raw"
  shows "((if has_currency (normalize (lines ! j)) (lines ! j) then 120 else 100) - 5,
          amount_value raw, raw, lines ! (j + 1)) \<in> set (tier1_added lines (map normalize lines))"
proof -
  have j: "j < length lines" "j < i + 20" using assms(4) by simp_all
  have nj: "map normalize lines ! j = normalize (lines ! j)" using j(1) by simp
  have "has_transfer (map normalize lines ! j) (lines ! j)" using assms(5) nj by simp
  from tier1_at_next[OF this assms(6,7)]
  have "((if has_currency (normalize (lines ! j)) (lines ! j) then 120 else 100) - 5,
          amount_value raw, raw, lines ! (j + 1)) \<in> set (tier1_at lines (map normalize lines) j)"
    unfolding nj .
  then show ?thesis unfolding tier1_added_mem using assms(1,2,3) j by blast
qed

lemma tier1_added_subset: "set (tier1_added lines (map normalize lines)) \<subseteq> set (all_added lines)"
  by (simp add: all_added_def)

lemma all_added_own_line:
  assumes "(s, a, r, l) \<in> set (all_added lines)"
  shows "amount_search l = Some r \<and> amount_grammar r \<and> de_amount_to_float r = Inr a"
proof -
  from all_added_sound[OF assms] have s: "amount_search l = Some r" "a = amount_value r" by auto
  then have g: "amount_grammar r" using amount_search_Some by blast
  show ?thesis using s g de_amount_to_float_grammar[OF g] by simp
qed

text \<open>
  C2. Tier 1. Let line \<open>i\<close> have \<open>zahlungen\<close> in its normalised form and let \<open>j\<close>, in
  the window from \<open>i\<close> to \<open>min (i + 20) (length lines)\<close>, be a line whose normalised form
  has \<open>ueberweisung\<close> or whose lowercased raw form has the word with U+00FC. Then the
  tier-1 loop adds, and the locator keeps, a candidate for line \<open>j\<close> with score 100, plus 20
  if the normalised line has \<open>eur\<close> or the raw line the euro sign, when the search finds an
  amount in line \<open>j\<close>; and, when line \<open>j + 1\<close> exists and the search finds an amount in it,
  a candidate for line \<open>j + 1\<close> with that same score minus 5. Every candidate of the loop
  carries the amount that the search finds in its own line.
\<close>

theorem tier1_generation:
  assumes "i < length lines"
    and "contains (ascii ''zahlungen'') (normalize (lines ! i))"
    and "i \<le> j" and "j < min (i + 20) (length lines)"
    and "contains (ascii ''ueberweisung'') (normalize (lines ! j)) \<or>
         contains (252 # ascii ''berweisung'') (lower (lines ! j))"
  shows "\<exists>c1 cs. tier1 lines (map normalize lines) [] = Inr c1 \<and>
     collect_candidates lines = Inr cs \<and> set c1 \<subseteq> set cs \<and>
     (\<forall>raw. amount_search (lines ! j) = Some raw \<longrightarrow>
        (\<exists>amt. de_amount_to_float raw = Inr amt \<and>
           (100 + (if contains (ascii ''eur'') (normalize (lines ! j)) \<or> contains [8364] (lines ! j)
                   then 20 else 0), amt, raw, lines ! j) \<in> set c1)) \<and>
     (j + 1 < length lines \<longrightarrow>
        (\<forall>raw. amount_search (lines ! (j + 1)) = Some raw \<longrightarrow>
           (\<exists>amt. de_amount_to_float raw = Inr amt \<and>
              (100 + (if contains (ascii ''eur'') (normalize (lines ! j)) \<or> contains [8364] (lines ! j)
                      then 20 else 0) - 5, amt, raw, lines ! (j + 1)) \<in> set c1))) \<and>
     (\<forall>(s, a, r, l) \<in> set c1.
        amount_search l = Some r \<and> amount_grammar r \<and> de_amount_to_float r = Inr a)"
proof -
  let ?c1 = "tier1_added lines (map normalize lines)"
  let ?sc = "100 + (if contains (ascii ''eur'') (normalize (lines ! j)) \<or> contains [8364] (lines ! j)
                   then 20 else 0) :: int"
  have sc: "?sc = (if has_currency (normalize (lines ! j)) (lines ! j) then 120 else 100)"
    by (simp add: has_currency_def)
  have ht: "has_transfer (normalize (lines ! j)) (lines ! j)"
    using assms(5) by (simp add: has_transfer_def)
  have t: "tier1 lines (map normalize lines) [] = Inr ?c1" by (simp add: tier1_eq)
  have c: "collect_candidates lines = Inr (all_added lines)" by (rule collect_candidates_eq)
  have same: "\<forall>raw. amount_search (lines ! j) = Some raw \<longrightarrow>
        (\<exists>amt. de_amount_to_float raw = Inr amt \<and> (?sc, amt, raw, lines ! j) \<in> set ?c1)"
  proof (intro allI impI)
    fix raw assume r: "amount_search (lines ! j) = Some raw"
    then have "amount_grammar raw" using amount_search_Some by blast
    then have "de_amount_to_float raw = Inr (amount_value raw)"
      by (rule de_amount_to_float_grammar)
    moreover have "(?sc, amount_value raw, raw, lines ! j) \<in> set ?c1"
      unfolding sc by (rule tier1_adds_same[OF assms(1-4) ht r])
    ultimately show "\<exists>amt. de_amount_to_float raw = Inr amt \<and> (?sc, amt, raw, lines ! j) \<in> set ?c1"
      by blast
  qed
  have nxt: "j + 1 < length lines \<longrightarrow>
        (\<forall>raw. amount_search (lines ! (j + 1)) = Some raw \<longrightarrow>
           (\<exists>amt. de_amount_to_float raw = Inr amt \<and>
              (?sc - 5, amt, raw, lines ! (j + 1)) \<in> set ?c1))"
  proof (intro allI impI)
    fix raw assume j1: "j + 1 < length lines" and r: "amount_search (lines ! (j + 1)) = Some raw"
    then have "amount_grammar raw" using amount_search_Some by blast
    then have "de_amount_to_float raw = Inr (amount_value raw)"
      by (rule de_amount_to_float_grammar)
    moreover have "(?sc - 5, amount_value raw, raw, lines ! (j + 1)) \<in> set ?c1"
      unfolding sc by (rule tier1_adds_next[OF assms(1-4) ht j1 r])
    ultimately show "\<exists>amt. de_amount_to_float raw = Inr amt \<and>
        (?sc - 5, amt, raw, lines ! (j + 1)) \<in> set ?c1"
      by blast
  qed
  have own: "\<forall>(s, a, r, l) \<in> set ?c1.
        amount_search l = Some r \<and> amount_grammar r \<and> de_amount_to_float r = Inr a"
    using all_added_own_line tier1_added_subset by fast
  show ?thesis using t c tier1_added_subset same nxt own by blast
qed

theorem tier1_generation_witness:
  "\<exists>c1. tier1 [ascii ''Zahlungen'', 220 # ascii ''berweisung 1.200,00 EUR'', ascii ''300,00'']
          (map normalize [ascii ''Zahlungen'', 220 # ascii ''berweisung 1.200,00 EUR'', ascii ''300,00''])
          [] = Inr c1 \<and>
        (120, Finite 1200, ascii ''1.200,00'', 220 # ascii ''berweisung 1.200,00 EUR'') \<in> set c1 \<and>
        (115, Finite 300, ascii ''300,00'', ascii ''300,00'') \<in> set c1"
proof -
  let ?L = "[ascii ''Zahlungen'', 220 # ascii ''berweisung 1.200,00 EUR'', ascii ''300,00'']"
  have h1: "(0::nat) < length ?L" by simp
  have h2: "contains (ascii ''zahlungen'') (normalize (?L ! 0))" by (simp add: ev_text)
  have h3: "(0::nat) \<le> 1" by simp
  have h4: "(1::nat) < min (0 + 20) (length ?L)" by simp
  have h5: "contains (ascii ''ueberweisung'') (normalize (?L ! 1)) \<or>
            contains (252 # ascii ''berweisung'') (lower (?L ! 1))" by (simp add: ev_text)
  have cur: "contains (ascii ''eur'') (normalize (?L ! 1)) \<or> contains [8364] (?L ! 1)"
    by (simp add: ev_text)
  have s1: "amount_search (?L ! 1) = Some (ascii ''1.200,00'')" by (simp add: ev_text ev_amount)
  have s2: "amount_search (?L ! (1 + 1)) = Some (ascii ''300,00'')" by (simp add: ev_text ev_amount)
  have f1: "de_amount_to_float (ascii ''1.200,00'') = Inr (Finite 1200)" by code_simp
  have f2: "de_amount_to_float (ascii ''300,00'') = Inr (Finite 300)" by code_simp
  have l: "1 + 1 < length ?L" by simp
  from tier1_generation[OF h1 h2 h3 h4 h5] obtain c1 where
    t: "tier1 ?L (map normalize ?L) [] = Inr c1"
    and a: "\<forall>raw. amount_search (?L ! 1) = Some raw \<longrightarrow>
        (\<exists>amt. de_amount_to_float raw = Inr amt \<and>
           (100 + (if contains (ascii ''eur'') (normalize (?L ! 1)) \<or> contains [8364] (?L ! 1)
                   then 20 else 0), amt, raw, ?L ! 1) \<in> set c1)"
    and b: "1 + 1 < length ?L \<longrightarrow>
        (\<forall>raw. amount_search (?L ! (1 + 1)) = Some raw \<longrightarrow>
           (\<exists>amt. de_amount_to_float raw = Inr amt \<and>
              (100 + (if contains (ascii ''eur'') (normalize (?L ! 1)) \<or> contains [8364] (?L ! 1)
                      then 20 else 0) - 5, amt, raw, ?L ! (1 + 1)) \<in> set c1))"
    by blast
  from a s1 f1 cur have m1: "(120, Finite 1200, ascii ''1.200,00'', ?L ! 1) \<in> set c1"
    by fastforce
  from b l s2 f2 cur have m2: "(115, Finite 300, ascii ''300,00'', ?L ! (1 + 1)) \<in> set c1"
    by fastforce
  have "?L ! 1 = 220 # ascii ''berweisung 1.200,00 EUR''" "?L ! (1 + 1) = ascii ''300,00''"
    by simp_all
  then show ?thesis using t m1 m2 by (intro exI[of _ c1]) simp
qed

text \<open>
  C6, as stated, fails: in the text of the two lines \<open>\<dots>berweisung\<close> (a capital
  U+00DC first) and \<open>1.024,09 EUR\<close> no line has \<open>zahlungen\<close>, so tier 1 does not run its
  inner loop; tier 3 looks at the keyword line only. No candidate is produced and the
  locator returns \<open>None\<close>.
\<close>

theorem next_line_fallback_counterexample:
  "collect_candidates (text_lines (220 # ascii ''berweisung'' @ [10] @ ascii ''1.024,09 EUR'')) = Inr [] \<and>
   find_payout_amount (220 # ascii ''berweisung'' @ [10] @ ascii ''1.024,09 EUR'') = Inr None"
proof -
  have tl: "text_lines (220 # ascii ''berweisung'' @ [10] @ ascii ''1.024,09 EUR'') =
      [220 # ascii ''berweisung'', ascii ''1.024,09 EUR'']"
    by (simp add: ev_text)
  have aa: "all_added [220 # ascii ''berweisung'', ascii ''1.024,09 EUR''] = []"
    by (simp add: ev_text ev_amount ev_tiers)
  show ?thesis
    unfolding find_payout_amount_def tl collect_candidates_eq aa by simp
qed

text \<open>
  C6, amended. When the line with the transfer keyword lies in the window of a line with
  \<open>zahlungen\<close> (from that line to 20 lines on, clipped to the text), has no amount the search
  finds, and is followed by the line \<open>1.024,09 EUR\<close>, the locator produces the tier-1
  candidate of the following line, with the amount 1024.09 and the score the keyword line
  would have had, 100 plus 20 for a currency marker on the keyword line, minus 5; the
  keyword line itself gives no candidate.
\<close>

theorem next_line_fallback:
  assumes "i < length lines"
    and "contains (ascii ''zahlungen'') (normalize (lines ! i))"
    and "i \<le> j" and "j < min (i + 20) (length lines)"
    and "contains (ascii ''ueberweisung'') (normalize (lines ! j)) \<or>
         contains (252 # ascii ''berweisung'') (lower (lines ! j))"
    and "amount_search (lines ! j) = None"
    and "j + 1 < length lines"
    and "lines ! (j + 1) = ascii ''1.024,09 EUR''"
  shows "\<exists>cs. collect_candidates lines = Inr cs \<and>
     (100 + (if contains (ascii ''eur'') (normalize (lines ! j)) \<or> contains [8364] (lines ! j)
             then 20 else 0) - 5,
      Finite (4503995451556495 / 2 ^ 42), ascii ''1.024,09'', ascii ''1.024,09 EUR'') \<in> set cs \<and>
     \<not> (\<exists>s a r. (s, a, r, lines ! j) \<in> set cs)"
proof -
  let ?sc = "100 + (if contains (ascii ''eur'') (normalize (lines ! j)) \<or> contains [8364] (lines ! j)
                   then 20 else 0) :: int"
  have sc: "?sc = (if has_currency (normalize (lines ! j)) (lines ! j) then 120 else 100)"
    by (simp add: has_currency_def)
  have ht: "has_transfer (normalize (lines ! j)) (lines ! j)"
    using assms(5) by (simp add: has_transfer_def)
  have s: "amount_search (ascii ''1.024,09 EUR'') = Some (ascii ''1.024,09'')"
    by (simp add: ev_text ev_amount)
  have v: "amount_value (ascii ''1.024,09'') = Finite (4503995451556495 / 2 ^ 42)"
    by (simp add: ev_text ev_amount)
  have r: "amount_search (lines ! (j + 1)) = Some (ascii ''1.024,09'')"
    unfolding assms(8) by (rule s)
  have "(?sc - 5, amount_value (ascii ''1.024,09''), ascii ''1.024,09'', lines ! (j + 1))
          \<in> set (tier1_added lines (map normalize lines))"
    unfolding sc by (rule tier1_adds_next[OF assms(1-4) ht assms(7) r])
  then have m: "(?sc - 5, Finite (4503995451556495 / 2 ^ 42), ascii ''1.024,09'',
      ascii ''1.024,09 EUR'') \<in> set (all_added lines)"
    unfolding v assms(8) using tier1_added_subset by blast
  have none: "\<not> (\<exists>s a r. (s, a, r, lines ! j) \<in> set (all_added lines))"
  proof
    assume "\<exists>s a r. (s, a, r, lines ! j) \<in> set (all_added lines)"
    then obtain s a r where "(s, a, r, lines ! j) \<in> set (all_added lines)" by blast
    from all_added_own_line[OF this] assms(6) show False by simp
  qed
  show ?thesis using collect_candidates_eq m none by blast
qed

theorem next_line_fallback_witness:
  "\<exists>cs. collect_candidates [ascii ''Zahlungen'', 220 # ascii ''berweisung'', ascii ''1.024,09 EUR'']
          = Inr cs \<and>
     (95, Finite (4503995451556495 / 2 ^ 42), ascii ''1.024,09'', ascii ''1.024,09 EUR'') \<in> set cs"
proof -
  let ?L = "[ascii ''Zahlungen'', 220 # ascii ''berweisung'', ascii ''1.024,09 EUR'']"
  have h1: "(0::nat) < length ?L" by simp
  have h2: "contains (ascii ''zahlungen'') (normalize (?L ! 0))" by (simp add: ev_text)
  have h3: "(0::nat) \<le> 1" by simp
  have h4: "(1::nat) < min (0 + 20) (length ?L)" by simp
  have h5: "contains (ascii ''ueberweisung'') (normalize (?L ! 1)) \<or>
            contains (252 # ascii ''berweisung'') (lower (?L ! 1))" by (simp add: ev_text)
  have h6: "amount_search (?L ! 1) = None" by (simp add: ev_text ev_amount)
  have h7: "1 + 1 < length ?L" by simp
  have h8: "?L ! (1 + 1) = ascii ''1.024,09 EUR''" by simp
  have cur: "\<not> (contains (ascii ''eur'') (normalize (?L ! 1)) \<or> contains [8364] (?L ! 1))"
    by (simp add: ev_text)
  from next_line_fallback[OF h1 h2 h3 h4 h5 h6 h7 h8] obtain cs where
    c: "collect_candidates ?L = Inr cs"
    and m: "(100 + (if contains (ascii ''eur'') (normalize (?L ! 1)) \<or> contains [8364] (?L ! 1)
             then 20 else 0) - 5,
      Finite (4503995451556495 / 2 ^ 42), ascii ''1.024,09'', ascii ''1.024,09 EUR'') \<in> set cs"
    by blast
  have "(100 + (if contains (ascii ''eur'') (normalize (?L ! 1)) \<or> contains [8364] (?L ! 1)
             then 20 else 0) - 5) = (95::int)"
    using cur by simp
  then have "(95, Finite (4503995451556495 / 2 ^ 42), ascii ''1.024,09'', ascii ''1.024,09 EUR'')
      \<in> set cs" using m by simp
  then show ?thesis using c by blast
qed

section \<open>Tier ordering\<close>





section \<open>The year-month token\<close>

lemma year_month_at_strptime:
  assumes "year_month_at s = Some (g1, g2)"
  shows "\<exists>y m. strptime_Ym (g1 @ g2) = Inr (y, m) \<and> 2000 \<le> y \<and> y \<le> 2099 \<and> 1 \<le> m \<and> m \<le> 12"
proof -
  from assms obtain a b c d e f r where s: "s = a # b # c # d # e # f # r"
    by (cases s rule: year_month_at.cases) auto
  from assms have g: "g1 = [50, 48, c, d]" "g2 = [e, f]" and cd: "is_digit c" "is_digit d"
    and ef: "(e = 48 \<and> 49 \<le> f \<and> f \<le> 57) \<or> (e = 49 \<and> 48 \<le> f \<and> f \<le> 50)"
    unfolding s by (auto split: if_splits)
  have dg: "list_all is_digit (g1 @ g2)" using g cd ef by (auto simp: is_digit_def)
  have y: "digits_value (take 4 (g1 @ g2)) = 2000 + 10 * (int c - 48) + (int d - 48)"
    unfolding g by (simp add: digits_value_def)
  have m: "digits_value (drop 4 (g1 @ g2)) = 10 * (int e - 48) + (int f - 48)"
    unfolding g by (simp add: digits_value_def)
  have yr: "2000 \<le> digits_value (take 4 (g1 @ g2))" "digits_value (take 4 (g1 @ g2)) \<le> 2099"
    unfolding y using cd by (auto simp: is_digit_def)
  have mr: "1 \<le> digits_value (drop 4 (g1 @ g2))" "digits_value (drop 4 (g1 @ g2)) \<le> 12"
    unfolding m using ef by auto
  have len: "length (g1 @ g2) = 6" unfolding g by simp
  have "strptime_Ym (g1 @ g2) =
      Inr (digits_value (take 4 (g1 @ g2)), digits_value (drop 4 (g1 @ g2)))"
    unfolding strptime_Ym_def using len dg yr mr by simp
  then show ?thesis using yr mr by blast
qed

lemma year_month_search_at:
  "year_month_search s = Some g \<Longrightarrow> \<exists>t. year_month_at t = Some g"
proof (induction s)
  case Nil
  then show ?case by simp
next
  case (Cons c cs)
  then show ?case by (cases "year_month_at (c # cs)") auto
qed

text \<open>A name has a token exactly when the extraction gives a date; \<open>strptime\<close> never fails
  on a match, and the date is a month of the years 2000 to 2099.\<close>

lemma extract_yyyymm_iff:
  "extract_yyyymm_from_name nm = None \<longleftrightarrow> year_month_search nm = None"
proof (cases "year_month_search nm")
  case None
  then show ?thesis by (simp add: extract_yyyymm_from_name_def)
next
  case (Some g)
  obtain g1 g2 where g: "g = (g1, g2)" by (cases g)
  from year_month_search_at Some g obtain t where "year_month_at t = Some (g1, g2)" by blast
  from year_month_at_strptime[OF this] obtain y m where "strptime_Ym (g1 @ g2) = Inr (y, m)"
    by blast
  then show ?thesis using Some g by (simp add: extract_yyyymm_from_name_def)
qed

lemma extract_yyyymm_range:
  assumes "extract_yyyymm_from_name nm = Some (y, m)"
  shows "2000 \<le> y \<and> y \<le> 2099 \<and> 1 \<le> m \<and> m \<le> 12"
proof -
  from assms obtain g1 g2 where s: "year_month_search nm = Some (g1, g2)"
    and p: "strptime_Ym (g1 @ g2) = Inr (y, m)"
    by (auto simp: extract_yyyymm_from_name_def split: option.splits sum.splits)
  from year_month_search_at[OF s] obtain t where "year_month_at t = Some (g1, g2)" by blast
  from year_month_at_strptime[OF this] p show ?thesis by auto
qed

section \<open>The scan of the folder\<close>

lemma pick_body_skip:
  assumes "\<not> passes_filters ps e"
  shows "pick_body ps e st = st"
proof -
  consider (a) "\<not> is_file e \<or> lower (suffix (name e)) \<noteq> ascii ''.pdf''"
    | (b) "ps \<noteq> [] \<and> \<not> list_ex (\<lambda>pref. prefix pref (lower (name e))) ps"
    | (c) "year_month_search (name e) = None"
    using assms unfolding passes_filters_def by blast
  then show ?thesis
  proof cases
    case a
    then show ?thesis unfolding pick_body_def by simp
  next
    case b
    then show ?thesis unfolding pick_body_def Let_def by simp
  next
    case c
    then have "extract_yyyymm_from_name (name e) = None" by (simp add: extract_yyyymm_iff)
    then show ?thesis unfolding pick_body_def Let_def by simp
  qed
qed

lemma pick_body_pass:
  assumes "passes_filters ps e"
  shows "\<exists>d. extract_yyyymm_from_name (name e) = Some d \<and>
           pick_body ps e st =
             (case fst st of
                None \<Rightarrow> (Some d, Some e)
              | Some best_dt \<Rightarrow> if d > best_dt then (Some d, Some e) else st)"
proof -
  from assms have "extract_yyyymm_from_name (name e) \<noteq> None"
    unfolding passes_filters_def by (simp add: extract_yyyymm_iff)
  then obtain d where d: "extract_yyyymm_from_name (name e) = Some d" by auto
  have "pick_body ps e st =
             (case fst st of
                None \<Rightarrow> (Some d, Some e)
              | Some best_dt \<Rightarrow> if d > best_dt then (Some d, Some e) else st)"
    using assms d unfolding passes_filters_def pick_body_def Let_def by auto
  then show ?thesis using d by blast
qed

lemma scan_inv_step:
  assumes "scan_inv ps S st"
  shows "scan_inv ps (insert e S) (pick_body ps e st)"
proof (cases "passes_filters ps e")
  case False
  then have "pick_body ps e st = st" by (rule pick_body_skip)
  then show ?thesis using assms False unfolding scan_inv_def by auto
next
  case True
  from pick_body_pass[OF True] obtain d where
    d: "extract_yyyymm_from_name (name e) = Some d"
    and b: "pick_body ps e st =
             (case fst st of
                None \<Rightarrow> (Some d, Some e)
              | Some best_dt \<Rightarrow> if d > best_dt then (Some d, Some e) else st)"
    by blast
  from assms consider
    (empty) "st = (None, None)" "\<forall>q \<in> S. \<not> passes_filters ps q"
  | (best) p d0 where "st = (Some d0, Some p)" "p \<in> S" "passes_filters ps p"
      "extract_yyyymm_from_name (name p) = Some d0"
      "\<forall>q \<in> S. passes_filters ps q \<longrightarrow>
           (\<forall>dq. extract_yyyymm_from_name (name q) = Some dq \<longrightarrow> dq \<le> d0)"
    unfolding scan_inv_def by blast
  then show ?thesis
  proof cases
    case empty
    have "pick_body ps e st = (Some d, Some e)" using b empty(1) by simp
    moreover have "\<forall>q \<in> insert e S. passes_filters ps q \<longrightarrow>
           (\<forall>dq. extract_yyyymm_from_name (name q) = Some dq \<longrightarrow> dq \<le> d)"
      using empty(2) d by auto
    ultimately show ?thesis unfolding scan_inv_def using True d by auto
  next
    case best
    show ?thesis
    proof (cases "d > d0")
      case gt: True
      have "pick_body ps e st = (Some d, Some e)" using b best(1) gt by simp
      moreover have "\<forall>q \<in> insert e S. passes_filters ps q \<longrightarrow>
           (\<forall>dq. extract_yyyymm_from_name (name q) = Some dq \<longrightarrow> dq \<le> d)"
        using best(5) d gt by fastforce
      ultimately show ?thesis unfolding scan_inv_def using True d by auto
    next
      case le: False
      have "pick_body ps e st = st" using b best(1) le by simp
      moreover have "\<forall>q \<in> insert e S. passes_filters ps q \<longrightarrow>
           (\<forall>dq. extract_yyyymm_from_name (name q) = Some dq \<longrightarrow> dq \<le> d0)"
        using best(5) d le by auto
      ultimately show ?thesis unfolding scan_inv_def using best(1-4) by auto
    qed
  qed
qed

lemma scan_inv_fold:
  "scan_inv ps S st \<Longrightarrow> scan_inv ps (S \<union> set es) (fold (pick_body ps) es st)"
proof (induction es arbitrary: S st)
  case Nil
  then show ?case by simp
next
  case (Cons e es)
  from scan_inv_step[OF Cons.prems] have "scan_inv ps (insert e S) (pick_body ps e st)" .
  from Cons.IH[OF this] show ?case by simp
qed

lemma scan_result:
  "scan_inv ps (set es) (fold (pick_body ps) es (None, None))"
proof -
  have "scan_inv ps {} (None, None)" by (simp add: scan_inv_def)
  from scan_inv_fold[OF this, of es] show ?thesis by simp
qed

lemma for_each_answering:
  "for_each (pick_item ps) (map Answering es) st = Inr (fold (pick_body ps) es st)"
  by (induction es arbitrary: st) (simp_all add: pick_item_def)


lemma pick_latest_pdf_directory:
  "pick_latest_pdf (Directory es) ps = Inr (snd (fold (pick_body ps) es (None, None)))"
  by (simp add: pick_latest_pdf_def for_each_answering)

section \<open>The selector\<close>

lemmas ev_pick = pick_latest_pdf_directory pick_body_def suffix_def rfind_def
  extract_yyyymm_from_name_def strptime_Ym_def default_prefixes_def is_digit_def
  digits_value_def passes_filters_def

lemma pick_latest_characterised:
  "\<exists>r. pick_latest_pdf (Directory es) ps = Inr r \<and>
     (r = None \<longleftrightarrow> \<not> (\<exists>p \<in> set es. passes_filters ps p)) \<and>
     (\<forall>p. r = Some p \<longrightarrow>
        p \<in> set es \<and> passes_filters ps p \<and>
        (\<exists>d. extract_yyyymm_from_name (name p) = Some d \<and>
           (\<forall>q \<in> set es. passes_filters ps q \<longrightarrow>
              (\<exists>dq. extract_yyyymm_from_name (name q) = Some dq \<and> dq \<le> d))))"
proof -
  let ?st = "fold (pick_body ps) es (None, None)"
  have tok: "\<And>q. passes_filters ps q \<Longrightarrow> \<exists>dq. extract_yyyymm_from_name (name q) = Some dq"
    using extract_yyyymm_iff unfolding passes_filters_def by (metis not_Some_eq)
  from scan_result[of ps es] consider
    (empty) "?st = (None, None)" "\<forall>q \<in> set es. \<not> passes_filters ps q"
  | (best) p d where "?st = (Some d, Some p)" "p \<in> set es" "passes_filters ps p"
      "extract_yyyymm_from_name (name p) = Some d"
      "\<forall>q \<in> set es. passes_filters ps q \<longrightarrow>
           (\<forall>dq. extract_yyyymm_from_name (name q) = Some dq \<longrightarrow> dq \<le> d)"
    unfolding scan_inv_def by blast
  then show ?thesis
  proof cases
    case empty
    then have "pick_latest_pdf (Directory es) ps = Inr None"
      by (simp add: pick_latest_pdf_directory)
    then show ?thesis using empty(2) by auto
  next
    case best
    have r: "pick_latest_pdf (Directory es) ps = Inr (Some p)"
      using best(1) by (simp add: pick_latest_pdf_directory)
    have mx: "\<forall>q \<in> set es. passes_filters ps q \<longrightarrow>
              (\<exists>dq. extract_yyyymm_from_name (name q) = Some dq \<and> dq \<le> d)"
      using best(5) tok by blast
    have a: "Some p = None \<longleftrightarrow> \<not> (\<exists>p \<in> set es. passes_filters ps p)"
      using best(2,3) by auto
    have b: "\<forall>p'. Some p = Some p' \<longrightarrow>
        p' \<in> set es \<and> passes_filters ps p' \<and>
        (\<exists>d. extract_yyyymm_from_name (name p') = Some d \<and>
           (\<forall>q \<in> set es. passes_filters ps q \<longrightarrow>
              (\<exists>dq. extract_yyyymm_from_name (name q) = Some dq \<and> dq \<le> d)))"
    proof (intro allI impI)
      fix p' assume "Some p = Some p'"
      then have "p' = p" by simp
      then show "p' \<in> set es \<and> passes_filters ps p' \<and>
        (\<exists>d. extract_yyyymm_from_name (name p') = Some d \<and>
           (\<forall>q \<in> set es. passes_filters ps q \<longrightarrow>
              (\<exists>dq. extract_yyyymm_from_name (name q) = Some dq \<and> dq \<le> d)))"
        using best(2,3,4) mx by blast
    qed
    show ?thesis using r a b by blast
  qed
qed

text \<open>
  C8, as stated, fails when no prefix is allowed: the selector then skips the prefix
  filter, and returns a file although no name starts with an allowed prefix.
\<close>

theorem pick_latest_prefix_counterexample:
  "pick_latest_pdf (Directory [\<lparr>name = ascii ''lohn_202401.pdf'', is_file = True\<rparr>]) [] =
     Inr (Some \<lparr>name = ascii ''lohn_202401.pdf'', is_file = True\<rparr>) \<and>
   \<not> list_ex (\<lambda>pref. prefix pref (lower (ascii ''lohn_202401.pdf''))) []"
  by (simp add: ev_pick ev_text)

text \<open>
  C8, amended. Over the entries of a directory the selector returns an entry with the
  maximal year-month date among those that pass the filters: a regular file, the extension
  \<open>.pdf\<close> in any case, a lowercased name starting with an allowed prefix or no prefix
  allowed at all, and a token in the name (\<open>20\<close>, two digits, a month 01 to 12; the first
  match); the dates compare by year, then month. It returns \<open>None\<close> exactly when no entry
  passes. On the three files of the specification with the default prefixes it returns
  \<open>entgeltnachweis_202512.pdf\<close>.
\<close>

theorem pick_latest_maximum:
  "(\<exists>r. pick_latest_pdf (Directory es) ps = Inr r \<and>
     (r = None \<longleftrightarrow> \<not> (\<exists>p \<in> set es. passes_filters ps p)) \<and>
     (\<forall>p. r = Some p \<longrightarrow>
        p \<in> set es \<and> passes_filters ps p \<and>
        (\<exists>y m. extract_yyyymm_from_name (name p) = Some (y, m) \<and>
           (\<forall>q \<in> set es. passes_filters ps q \<longrightarrow>
              (\<exists>yq mq. extract_yyyymm_from_name (name q) = Some (yq, mq) \<and>
                 (yq < y \<or> yq = y \<and> mq \<le> m)))))) \<and>
   pick_latest_pdf
     (Directory [\<lparr>name = ascii ''entgeltnachweis_202401.pdf'', is_file = True\<rparr>,
                 \<lparr>name = ascii ''entgeltnachweis_202512.pdf'', is_file = True\<rparr>,
                 \<lparr>name = ascii ''sonstiges_202601.pdf'', is_file = True\<rparr>])
     default_prefixes =
   Inr (Some \<lparr>name = ascii ''entgeltnachweis_202512.pdf'', is_file = True\<rparr>)"
proof -
  from pick_latest_characterised[of es ps] obtain r where
    r: "pick_latest_pdf (Directory es) ps = Inr r"
    and n: "r = None \<longleftrightarrow> \<not> (\<exists>p \<in> set es. passes_filters ps p)"
    and s: "\<forall>p. r = Some p \<longrightarrow>
        p \<in> set es \<and> passes_filters ps p \<and>
        (\<exists>d. extract_yyyymm_from_name (name p) = Some d \<and>
           (\<forall>q \<in> set es. passes_filters ps q \<longrightarrow>
              (\<exists>dq. extract_yyyymm_from_name (name q) = Some dq \<and> dq \<le> d)))"
    by blast
  have s': "\<forall>p. r = Some p \<longrightarrow>
        p \<in> set es \<and> passes_filters ps p \<and>
        (\<exists>y m. extract_yyyymm_from_name (name p) = Some (y, m) \<and>
           (\<forall>q \<in> set es. passes_filters ps q \<longrightarrow>
              (\<exists>yq mq. extract_yyyymm_from_name (name q) = Some (yq, mq) \<and>
                 (yq < y \<or> yq = y \<and> mq \<le> m))))"
  proof (intro allI impI)
    fix p assume "r = Some p"
    with s obtain d where p: "p \<in> set es" "passes_filters ps p"
      and d: "extract_yyyymm_from_name (name p) = Some d"
      and mx: "\<forall>q \<in> set es. passes_filters ps q \<longrightarrow>
              (\<exists>dq. extract_yyyymm_from_name (name q) = Some dq \<and> dq \<le> d)" by blast
    obtain y m where ym: "d = (y, m)" by (cases d)
    have "\<forall>q \<in> set es. passes_filters ps q \<longrightarrow>
              (\<exists>yq mq. extract_yyyymm_from_name (name q) = Some (yq, mq) \<and>
                 (yq < y \<or> yq = y \<and> mq \<le> m))"
    proof (intro ballI impI)
      fix q assume "q \<in> set es" "passes_filters ps q"
      with mx obtain dq where dq: "extract_yyyymm_from_name (name q) = Some dq" "dq \<le> d"
        by blast
      obtain yq mq where q: "dq = (yq, mq)" by (cases dq)
      from dq(2) have "yq < y \<or> yq = y \<and> mq \<le> m" unfolding q ym by auto
      then show "\<exists>yq mq. extract_yyyymm_from_name (name q) = Some (yq, mq) \<and>
                 (yq < y \<or> yq = y \<and> mq \<le> m)" using dq(1) q by blast
    qed
    then show "p \<in> set es \<and> passes_filters ps p \<and>
        (\<exists>y m. extract_yyyymm_from_name (name p) = Some (y, m) \<and>
           (\<forall>q \<in> set es. passes_filters ps q \<longrightarrow>
              (\<exists>yq mq. extract_yyyymm_from_name (name q) = Some (yq, mq) \<and>
                 (yq < y \<or> yq = y \<and> mq \<le> m))))"
      using p d ym by blast
  qed
  have v: "pick_latest_pdf
     (Directory [\<lparr>name = ascii ''entgeltnachweis_202401.pdf'', is_file = True\<rparr>,
                 \<lparr>name = ascii ''entgeltnachweis_202512.pdf'', is_file = True\<rparr>,
                 \<lparr>name = ascii ''sonstiges_202601.pdf'', is_file = True\<rparr>])
     default_prefixes =
   Inr (Some \<lparr>name = ascii ''entgeltnachweis_202512.pdf'', is_file = True\<rparr>)"
    by (simp add: ev_pick ev_text)
  show ?thesis using r n s' v by blast
qed

theorem pick_latest_maximum_witness:
  "pick_latest_pdf
     (Directory [\<lparr>name = ascii ''entgeltnachweis_202401.pdf'', is_file = True\<rparr>,
                 \<lparr>name = ascii ''entgeltnachweis_202512.pdf'', is_file = True\<rparr>,
                 \<lparr>name = ascii ''sonstiges_202601.pdf'', is_file = True\<rparr>])
     default_prefixes =
   Inr (Some \<lparr>name = ascii ''entgeltnachweis_202512.pdf'', is_file = True\<rparr>) \<and>
   passes_filters default_prefixes \<lparr>name = ascii ''entgeltnachweis_202512.pdf'', is_file = True\<rparr> \<and>
   extract_yyyymm_from_name (ascii ''entgeltnachweis_202512.pdf'') = Some (2025, 12) \<and>
   \<not> passes_filters default_prefixes \<lparr>name = ascii ''sonstiges_202601.pdf'', is_file = True\<rparr>"
proof -
  let ?E = "[\<lparr>name = ascii ''entgeltnachweis_202401.pdf'', is_file = True\<rparr>,
             \<lparr>name = ascii ''entgeltnachweis_202512.pdf'', is_file = True\<rparr>,
             \<lparr>name = ascii ''sonstiges_202601.pdf'', is_file = True\<rparr>]"
  let ?F = "\<lparr>name = ascii ''entgeltnachweis_202512.pdf'', is_file = True\<rparr>"
  from pick_latest_maximum[of ?E default_prefixes] obtain r where
    r: "pick_latest_pdf (Directory ?E) default_prefixes = Inr r"
    and s: "\<forall>p. r = Some p \<longrightarrow> p \<in> set ?E \<and> passes_filters default_prefixes p"
    and v: "pick_latest_pdf (Directory ?E) default_prefixes = Inr (Some ?F)"
    by blast
  from r v have "r = Some ?F" by simp
  with s have p: "passes_filters default_prefixes ?F" by blast
  have e: "extract_yyyymm_from_name (ascii ''entgeltnachweis_202512.pdf'') = Some (2025, 12)"
    by (simp add: ev_pick ev_text)
  have n: "\<not> passes_filters default_prefixes \<lparr>name = ascii ''sonstiges_202601.pdf'', is_file = True\<rparr>"
    by (simp add: ev_pick ev_text)
  show ?thesis using v p e n by blast
qed




end
